theory Spec2Isabelle
  imports Main "HOL-Library.Sublist"
begin

section \<open>The environment of the script\<close>

text \<open>
  \<^verbatim>\<open>force-git-resolution.py\<close> is one function that talks to the file system
  (\<^verbatim>\<open>Path.rglob\<close>, \<^verbatim>\<open>Path.unlink\<close>, \<^verbatim>\<open>os.path.exists\<close>, \<^verbatim>\<open>os.remove\<close>),
  to child processes (\<^verbatim>\<open>subprocess.run\<close>) and to standard output (\<^verbatim>\<open>print\<close>).

  The file system is a table from relative paths, spelled as \<^verbatim>\<open>pathlib\<close> prints them
  on POSIX, to nodes. A node says what the three file system calls of the script
  observe at that path:
  \<^item> its kind: a directory, or a file with a flag telling whether the operating system
    lets this process unlink it;
  \<^item> \<open>listed\<close>: whether the recursive search reaches it. The search does not descend
    into a symbolic link to a directory and silently skips a directory that the
    process may not read, so an entry below either is not listed;
  \<^item> \<open>visible\<close>: whether \<^verbatim>\<open>os.path.exists\<close> is true for it. It is false below a
    directory that the process may not search, and true below a symbolic link
    to a directory, where the search does not go.

  The order of the table is the order in which the search yields the entries. One path
  names one file: hard links, and a second path to the same file through a symbolic
  link, are not modelled. The flag \<open>too_deep\<close> says that the tree below \<^verbatim>\<open>.git\<close> is
  nested deeper than the recursion limit of the interpreter lets the search descend.
\<close>

type_synonym path = string

datatype kind = File bool | Dir

datatype node = Node (kind: kind) (listed: bool) (visible: bool)

record fsys =
  nodes :: "(path \<times> node) list"
  too_deep :: bool

definition node_at :: "fsys \<Rightarrow> path \<Rightarrow> node option" where
  "node_at f p = map_of (nodes f) p"

definition delete_path :: "path \<Rightarrow> fsys \<Rightarrow> fsys" where
  "delete_path p f = f\<lparr>nodes := filter (\<lambda>e. fst e \<noteq> p) (nodes f)\<rparr>"

text \<open>
  Strings are byte strings: a file name is the bytes of its name, a printed line is the
  bytes of its UTF-8 form. Standard output is an open text stream with an encoding. Text
  of the ASCII range can always be encoded; of the other bytes the stream says which it
  can encode (none for an ASCII stream; for a UTF-8 stream all but the bytes of a file
  name that is not valid UTF-8).

  What is behind the stream (a terminal, a file, a pipe) takes what is written to it, or
  every write to it fails with an \<^verbatim>\<open>OSError\<close> (a full disk, a pipe that nobody reads);
  \<open>write_error\<close> is the text of that error. This does not change during a run. A
  buffered stream, the default for a file and a pipe, keeps what is printed and writes
  it out when the interpreter exits; the output of one run fits into the buffer. An
  unbuffered stream (\<^verbatim>\<open>python -u\<close>, \<^verbatim>\<open>PYTHONUNBUFFERED\<close>) writes at every
  \<^verbatim>\<open>print\<close>, and so \<open>blocked\<close> is the exception that every \<^verbatim>\<open>print\<close> to it raises.
\<close>

record stream =
  encodes :: "char \<Rightarrow> bool"
  buffered :: bool
  write_error :: "string option"

definition writable :: "stream \<Rightarrow> bool" where
  "writable out = (write_error out = None)"

definition is_ascii :: "char \<Rightarrow> bool" where
  "is_ascii c = (\<not> digit7 c)"

definition can_print :: "stream \<Rightarrow> string \<Rightarrow> bool" where
  "can_print out s = list_all (\<lambda>c. is_ascii c \<or> encodes out c) s"

text \<open>
  The exceptions that the library calls of the script raise. All but
  \<^verbatim>\<open>KeyboardInterrupt\<close> are subclasses of \<^verbatim>\<open>Exception\<close>. \<^verbatim>\<open>OSError\<close>,
  \<^verbatim>\<open>TimeoutExpired\<close> and \<^verbatim>\<open>IndexError\<close> carry the text that \<^verbatim>\<open>str(e)\<close> gives; for
  the others a text of the same shape stands for it (codec, offending character and
  position vary), which is always in the ASCII range.
\<close>

datatype exn =
    OSError string
  | TimeoutExpired string
  | IndexError string
  | UnicodeEncodeError
  | UnicodeDecodeError
  | RecursionError
  | KeyboardInterrupt

fun is_Exception :: "exn \<Rightarrow> bool" where
  "is_Exception KeyboardInterrupt = False"
| "is_Exception _ = True"

fun is_TimeoutExpired :: "exn \<Rightarrow> bool" where
  "is_TimeoutExpired (TimeoutExpired _) = True"
| "is_TimeoutExpired _ = False"

fun str_exn :: "exn \<Rightarrow> string" where
  "str_exn (OSError m) = m"
| "str_exn (TimeoutExpired m) = m"
| "str_exn (IndexError m) = m"
| "str_exn UnicodeEncodeError = ''codec cannot encode character''"
| "str_exn UnicodeDecodeError = ''codec cannot decode byte''"
| "str_exn RecursionError = ''maximum recursion depth exceeded''"
| "str_exn KeyboardInterrupt = []"

definition blocked :: "stream \<Rightarrow> exn option" where
  "blocked out = (if buffered out then None else map_option OSError (write_error out))"

text \<open>
  What a child process does when it is left alone: it exits after some time with a
  return code, standard output and standard error (as text, after decoding and newline
  translation); or it exits after some time with output that cannot be decoded as text;
  or it never exits; or it cannot be started at all (no \<^verbatim>\<open>git\<close> executable). The shell
  maps a command line and the file system it starts in to that behaviour and to the
  file system that is there when \<^verbatim>\<open>subprocess.run\<close> gives control back: external
  commands may change any file.
\<close>

datatype proc = Exited nat int string string | Garbled nat | Hung | NotStarted

type_synonym shell = "string list \<Rightarrow> fsys \<Rightarrow> proc \<times> fsys"

text \<open>
  The observable events of a run, in order: a line printed, an attempt to unlink a
  path, a child process run with a timeout and the time the call blocked, the result a
  process returned (return code, standard output, standard error), an exception raised
  by a library call.
\<close>

datatype event =
    Print string
  | Unlink path
  | Run "string list" nat nat
  | Returned int string string
  | Raised exn

text \<open>
  A statement or expression of the script takes the file system and gives a value or
  an exception, the new file system and the events it caused.
\<close>

type_synonym 'a action = "fsys \<Rightarrow> (exn + 'a) \<times> fsys \<times> event list"

definition outcome :: "(exn + 'a) \<times> fsys \<times> event list \<Rightarrow> exn + 'a" where
  "outcome r = fst r"

definition fs_after :: "(exn + 'a) \<times> fsys \<times> event list \<Rightarrow> fsys" where
  "fs_after r = fst (snd r)"

definition trace :: "(exn + 'a) \<times> fsys \<times> event list \<Rightarrow> event list" where
  "trace r = snd (snd r)"

definition act_return :: "'a \<Rightarrow> 'a action" where
  "act_return x f = (Inr x, f, [])"

definition act_raise :: "exn \<Rightarrow> 'a action" where
  "act_raise e f = (Inl e, f, [Raised e])"

definition emit :: "event \<Rightarrow> unit action" where
  "emit ev f = (Inr (), f, [ev])"

definition act_bind :: "'a action \<Rightarrow> ('a \<Rightarrow> 'b action) \<Rightarrow> 'b action" where
  "act_bind m k f =
     (case m f of
        (Inl e, f', es) \<Rightarrow> (Inl e, f', es)
      | (Inr x, f', es) \<Rightarrow> (case k x f' of (r, f'', es') \<Rightarrow> (r, f'', es @ es')))"

definition act_seq :: "unit action \<Rightarrow> 'b action \<Rightarrow> 'b action" where
  "act_seq m n = act_bind m (\<lambda>_. n)"

text \<open>
  \<^verbatim>\<open>try: body except ...\<close>: the clauses map an exception to the handler of the first
  clause that matches it, or to nothing, and then the exception goes on. An exception
  raised by the handler itself goes on too.
\<close>

definition try_except :: "unit action \<Rightarrow> (exn \<Rightarrow> unit action option) \<Rightarrow> unit action" where
  "try_except body clauses f =
     (case body f of
        (Inr x, f', es) \<Rightarrow> (Inr x, f', es)
      | (Inl e, f', es) \<Rightarrow>
          (case clauses e of
             None \<Rightarrow> (Inl e, f', es)
           | Some handler \<Rightarrow> (case handler f' of (r, f'', es') \<Rightarrow> (r, f'', es @ es'))))"

fun for_each :: "'a list \<Rightarrow> ('a \<Rightarrow> unit action) \<Rightarrow> unit action" where
  "for_each [] body = act_return ()"
| "for_each (x # xs) body = act_seq (body x) (for_each xs body)"

subsection \<open>The library calls\<close>

text \<open>
  \<^verbatim>\<open>print\<close> encodes the line for standard output and raises \<^verbatim>\<open>UnicodeEncodeError\<close>
  when the stream cannot encode it; then it hands the bytes to the stream, which raises
  when it is unbuffered and cannot be written to. Nothing of the line is printed in
  either case. The event \<open>Print\<close> is a call of \<^verbatim>\<open>print\<close> that returned.
\<close>

definition py_print :: "stream \<Rightarrow> string \<Rightarrow> unit action" where
  "py_print out s =
     (if \<not> can_print out s then act_raise UnicodeEncodeError
      else case blocked out of Some e \<Rightarrow> act_raise e | None \<Rightarrow> emit (Print s))"

text \<open>
  \<^verbatim>\<open>repr\<close> of a string: in single quotes, or in double quotes when the string has a
  single quote and no double quote; the quote in use and the backslash get a backslash,
  control characters are written as escapes. Bytes beyond ASCII are kept as they are
  (Python keeps a printable character and writes an escape for the others).
\<close>

definition repr_quote :: "string \<Rightarrow> char" where
  "repr_quote s = (if CHR 0x27 \<in> set s \<and> CHR 0x22 \<notin> set s then CHR 0x22 else CHR 0x27)"

definition hex_digit :: "nat \<Rightarrow> char" where
  "hex_digit n = ''0123456789abcdef'' ! (n mod 16)"

definition is_control :: "char \<Rightarrow> bool" where
  "is_control c = ((\<not> digit7 c \<and> \<not> digit6 c \<and> \<not> digit5 c) \<or> c = CHR 0x7F)"

definition repr_char :: "char \<Rightarrow> char \<Rightarrow> string" where
  "repr_char q c =
     (if c = q \<or> c = CHR 0x5C then [CHR 0x5C, c]
      else if c = CHR 0x0A then [CHR 0x5C, CHR ''n'']
      else if c = CHR 0x0D then [CHR 0x5C, CHR ''r'']
      else if c = CHR 0x09 then [CHR 0x5C, CHR ''t'']
      else if is_control c then
        [CHR 0x5C, CHR ''x'', hex_digit (of_char c div 16), hex_digit (of_char c mod 16)]
      else [c])"

definition py_repr :: "string \<Rightarrow> string" where
  "py_repr s = [repr_quote s] @ concat (map (repr_char (repr_quote s)) s) @ [repr_quote s]"

fun join :: "string \<Rightarrow> string list \<Rightarrow> string" where
  "join sep [] = []"
| "join sep [x] = x"
| "join sep (x # y # ys) = x @ sep @ join sep (y # ys)"

text \<open>
  \<^verbatim>\<open>unlink(2)\<close>, behind both \<^verbatim>\<open>Path.unlink\<close> and \<^verbatim>\<open>os.remove\<close>: it fails on a path
  that is not there, on a path below a directory that the process may not search, on a
  directory, and on a file the process may not delete.
\<close>

definition unlink_error :: "path \<Rightarrow> node option \<Rightarrow> exn option" where
  "unlink_error p n =
     (case n of
        None \<Rightarrow> Some (OSError (''[Errno 2] No such file or directory: '' @ py_repr p))
      | Some (Node k l v) \<Rightarrow>
          (if \<not> v then Some (OSError (''[Errno 13] Permission denied: '' @ py_repr p))
           else case k of
             Dir \<Rightarrow> Some (OSError (''[Errno 21] Is a directory: '' @ py_repr p))
           | File d \<Rightarrow>
               (if d then None
                else Some (OSError (''[Errno 13] Permission denied: '' @ py_repr p)))))"

definition unlink :: "path \<Rightarrow> unit action" where
  "unlink p =
     act_seq (emit (Unlink p))
       (\<lambda>f. case unlink_error p (node_at f p) of
              Some e \<Rightarrow> act_raise e f
            | None \<Rightarrow> (Inr (), delete_path p f, []))"

definition os_remove :: "path \<Rightarrow> unit action" where
  "os_remove p = unlink p"

text \<open>\<^verbatim>\<open>os.path.exists\<close> never raises: a path it cannot examine does not exist for it.\<close>

definition exists_in :: "fsys \<Rightarrow> path \<Rightarrow> bool" where
  "exists_in f p = (case node_at f p of Some n \<Rightarrow> visible n | None \<Rightarrow> False)"

definition os_path_exists :: "path \<Rightarrow> bool action" where
  "os_path_exists p f = (Inr (exists_in f p), f, [])"

text \<open>
  Shell-style matching of a name against a pattern whose only wildcard is \<^verbatim>\<open>*\<close>, as
  in \<^verbatim>\<open>*.lock\<close>. \<^verbatim>\<open>Path.rglob\<close> gives every entry below the directory that the search
  reaches and whose last component matches, directories too. It raises
  \<^verbatim>\<open>RecursionError\<close> when the tree is too deep for it.
\<close>

fun fnmatch :: "string \<Rightarrow> string \<Rightarrow> bool" where
  "fnmatch [] [] = True"
| "fnmatch [] (c # cs) = False"
| "fnmatch (p # ps) [] = (p = CHR ''*'' \<and> fnmatch ps [])"
| "fnmatch (p # ps) (c # cs) =
     (if p = CHR ''*'' then fnmatch ps (c # cs) \<or> fnmatch (p # ps) cs
      else p = c \<and> fnmatch ps cs)"

definition basename :: "path \<Rightarrow> string" where
  "basename p = rev (takeWhile (\<lambda>c. c \<noteq> CHR ''/'') (rev p))"

definition below :: "path \<Rightarrow> path \<Rightarrow> bool" where
  "below d p = prefix (d @ ''/'') p"

definition rglob :: "path \<Rightarrow> string \<Rightarrow> path list action" where
  "rglob d pat f =
     (if too_deep f then act_raise RecursionError f
      else (Inr (filter (\<lambda>p. below d p \<and> fnmatch pat (basename p))
                   (map fst (filter (\<lambda>e. listed (snd e)) (nodes f)))), f, []))"

text \<open>
  \<^verbatim>\<open>subprocess.run(cmd, capture_output=True, text=True, timeout=t)\<close>: waits for the
  process for at most \<^verbatim>\<open>t\<close> units of time, then gives it up and raises
  \<^verbatim>\<open>TimeoutExpired\<close>. Output that is not valid text makes it raise
  \<^verbatim>\<open>UnicodeDecodeError\<close>, a missing executable \<^verbatim>\<open>FileNotFoundError\<close>, an \<^verbatim>\<open>OSError\<close>.
\<close>

fun show_nat :: "nat \<Rightarrow> string" where
  "show_nat n =
     (if n < 10 then [char_of (48 + n)]
      else show_nat (n div 10) @ [char_of (48 + n mod 10)])"

definition py_repr_list :: "string list \<Rightarrow> string" where
  "py_repr_list xs = ''['' @ join '', '' (map py_repr xs) @ '']''"

definition timeout_expired :: "string list \<Rightarrow> nat \<Rightarrow> exn" where
  "timeout_expired argv t =
     TimeoutExpired (''Command '' @ [CHR 0x27] @ py_repr_list argv @ [CHR 0x27]
                     @ '' timed out after '' @ show_nat t @ '' seconds'')"

definition no_executable :: "string list \<Rightarrow> exn" where
  "no_executable argv =
     OSError (''[Errno 2] No such file or directory: ''
              @ py_repr (case argv of [] \<Rightarrow> [] | x # _ \<Rightarrow> x))"

definition subprocess_run :: "shell \<Rightarrow> string list \<Rightarrow> nat \<Rightarrow> (int \<times> string \<times> string) action" where
  "subprocess_run sh argv t f =
     (case sh argv f of
        (NotStarted, f') \<Rightarrow>
          (Inl (no_executable argv), f', [Run argv t 0, Raised (no_executable argv)])
      | (Hung, f') \<Rightarrow>
          (Inl (timeout_expired argv t), f', [Run argv t t, Raised (timeout_expired argv t)])
      | (Garbled d, f') \<Rightarrow>
          (if d \<le> t then (Inl UnicodeDecodeError, f', [Run argv t d, Raised UnicodeDecodeError])
           else (Inl (timeout_expired argv t), f',
                 [Run argv t t, Raised (timeout_expired argv t)]))
      | (Exited d rc out err, f') \<Rightarrow>
          (if d \<le> t then (Inr (rc, out, err), f', [Run argv t d, Returned rc out err])
           else (Inl (timeout_expired argv t), f',
                 [Run argv t t, Raised (timeout_expired argv t)])))"

definition py_last :: "string list \<Rightarrow> string action" where
  "py_last xs =
     (if xs = [] then act_raise (IndexError ''list index out of range'')
      else act_return (last xs))"

section \<open>The script\<close>

definition git_dir :: path where
  "git_dir = ''.git''"

definition specific_locks :: "path list" where
  "specific_locks =
     [''.git/index.lock'',
      ''.git/HEAD.lock'',
      ''.git/config.lock'',
      ''.git/refs/heads/main.lock'']"

definition commands :: "string list list" where
  "commands =
     [[''git'', ''reset'', ''--hard'', ''HEAD''],
      [''git'', ''clean'', ''-fd''],
      [''git'', ''fetch'', ''--all''],
      [''git'', ''reset'', ''--hard'', ''origin/main''],
      [''git'', ''status'']]"

definition except_Exception :: "(exn \<Rightarrow> unit action) \<Rightarrow> exn \<Rightarrow> unit action option" where
  "except_Exception handler e = (if is_Exception e then Some (handler e) else None)"

definition removed_lock_file_msg :: "path \<Rightarrow> string" where
  "removed_lock_file_msg lock_file = ''Removed lock file: '' @ lock_file"

definition removed_msg :: "path \<Rightarrow> string" where
  "removed_msg lock_path = ''Removed: '' @ lock_path"

definition could_not_remove_msg :: "path \<Rightarrow> exn \<Rightarrow> string" where
  "could_not_remove_msg p e = ''Could not remove '' @ p @ '': '' @ str_exn e"

definition check_mark :: string where
  "check_mark = [CHR 0xE2, CHR 0x9C, CHR 0x93]"

definition ballot_x :: string where
  "ballot_x = [CHR 0xE2, CHR 0x9C, CHR 0x97]"

definition ok_msg :: "string list \<Rightarrow> string" where
  "ok_msg cmd = check_mark @ '' '' @ join '' '' cmd"

definition failed_msg :: "string list \<Rightarrow> string \<Rightarrow> string" where
  "failed_msg cmd err = ballot_x @ '' '' @ join '' '' cmd @ '': '' @ err"

definition timeout_msg :: "string list \<Rightarrow> string" where
  "timeout_msg cmd = ''Timeout: '' @ join '' '' cmd"

definition error_msg :: "string list \<Rightarrow> exn \<Rightarrow> string" where
  "error_msg cmd e = ''Error running '' @ join '' '' cmd @ '': '' @ str_exn e"

text \<open>The body of the first loop, over the lock files that \<^verbatim>\<open>rglob\<close> found.\<close>

definition remove_lock_file :: "stream \<Rightarrow> path \<Rightarrow> unit action" where
  "remove_lock_file out lock_file =
     try_except
       (act_seq (unlink lock_file) (py_print out (removed_lock_file_msg lock_file)))
       (except_Exception (\<lambda>e. py_print out (could_not_remove_msg lock_file e)))"

text \<open>The body of the second loop, over the four fixed paths.\<close>

definition remove_specific_lock :: "stream \<Rightarrow> path \<Rightarrow> unit action" where
  "remove_specific_lock out lock_path =
     try_except
       (act_bind (os_path_exists lock_path) (\<lambda>there.
          if there then act_seq (os_remove lock_path) (py_print out (removed_msg lock_path))
          else act_return ()))
       (except_Exception (\<lambda>e. py_print out (could_not_remove_msg lock_path e)))"

text \<open>The body of the third loop, over the commands.\<close>

definition run_command :: "stream \<Rightarrow> shell \<Rightarrow> string list \<Rightarrow> unit action" where
  "run_command out sh cmd =
     try_except
       (act_bind (subprocess_run sh cmd 30) (\<lambda>(returncode, stdout, stderr).
          if returncode = 0 then
            act_seq (py_print out (ok_msg cmd))
              (act_bind (py_last cmd) (\<lambda>l.
                 if l = ''status'' then py_print out stdout else act_return ()))
          else py_print out (failed_msg cmd stderr)))
       (\<lambda>e. if is_TimeoutExpired e then Some (py_print out (timeout_msg cmd))
            else except_Exception (\<lambda>e. py_print out (error_msg cmd e)) e)"

definition force_git_resolution :: "stream \<Rightarrow> shell \<Rightarrow> unit action" where
  "force_git_resolution out sh =
     act_seq (py_print out ''Force-resolving Git lock and conflicts...'')
    (act_bind (rglob git_dir ''*.lock'') (\<lambda>lock_files.
     act_seq (for_each lock_files (remove_lock_file out))
    (act_seq (for_each specific_locks (remove_specific_lock out))
    (act_seq (for_each commands (run_command out sh))
    (act_seq (py_print out (CHR 0x0A # ''Git resolution attempt complete.''))
             (py_print out ''Try running: git status''))))))"

text \<open>
  The script run as a program. When the function returns the interpreter exits with
  code 0, when an exception leaves it with code 1; and when there is buffered output that
  cannot be written out at exit, the exit code is 120 whatever it was.
\<close>

definition main :: "stream \<Rightarrow> shell \<Rightarrow> fsys \<Rightarrow> nat \<times> fsys \<times> event list" where
  "main out sh f =
     (case force_git_resolution out sh f of
        (Inr _, f', es) \<Rightarrow> (if buffered out \<and> \<not> writable out then 120 else 0, f', es)
      | (Inl e, f', es) \<Rightarrow> (if buffered out \<and> \<not> writable out then 120 else 1, f', es))"


text \<open>
  The two parts of the routine: the lock cleanup (its announcement and the two
  deletion loops) and the command runner (the third loop and the closing lines). The
  routine is the first followed by the second (lemma \<open>force_git_resolution_split\<close>).
\<close>

definition lock_cleanup :: "stream \<Rightarrow> unit action" where
  "lock_cleanup out =
     act_seq (py_print out ''Force-resolving Git lock and conflicts...'')
    (act_bind (rglob git_dir ''*.lock'') (\<lambda>lock_files.
     act_seq (for_each lock_files (remove_lock_file out))
             (for_each specific_locks (remove_specific_lock out))))"

definition command_runner :: "stream \<Rightarrow> shell \<Rightarrow> unit action" where
  "command_runner out sh =
     act_seq (for_each commands (run_command out sh))
    (act_seq (py_print out (CHR 0x0A # ''Git resolution attempt complete.''))
             (py_print out ''Try running: git status''))"

text \<open>
  The list that the search for \<^verbatim>\<open>*.lock\<close> below \<^verbatim>\<open>.git\<close> gives on a file system; no
  list when the search raises.
\<close>

definition lock_files_of :: "fsys \<Rightarrow> path list" where
  "lock_files_of f = (case outcome (rglob git_dir ''*.lock'' f) of Inr ps \<Rightarrow> ps | Inl _ \<Rightarrow> [])"

text \<open>
  The cleanup is cut short when the first \<^verbatim>\<open>print\<close> raises, when the search raises, or
  when a lock file that the search found has a name that standard output cannot encode:
  then the print in the \<^verbatim>\<open>except\<close> clause of the first loop raises as well.
\<close>

definition cut_short :: "stream \<Rightarrow> fsys \<Rightarrow> bool" where
  "cut_short out f =
     (blocked out \<noteq> None \<or> too_deep f \<or> (\<exists>p \<in> set (lock_files_of f). \<not> can_print out p))"

text \<open>The command lines of the child processes of a run, in order.\<close>

fun invoked :: "event list \<Rightarrow> string list list" where
  "invoked [] = []"
| "invoked (Run argv t d # es) = argv # invoked es"
| "invoked (_ # es) = invoked es"




text \<open>The two lines printed at the end of the routine.\<close>

definition closing_lines :: "event list" where
  "closing_lines =
     [Print (CHR 0x0A # ''Git resolution attempt complete.''),
      Print ''Try running: git status'']"

text \<open>
  What one turn of the third loop does after the process has returned: the report for
  the return code, and for \<^verbatim>\<open>git status\<close> the captured standard output; a line that
  standard output cannot encode raises inside the \<^verbatim>\<open>try\<close> and is reported as an error.
\<close>

definition encode_error_events :: "string list \<Rightarrow> event list" where
  "encode_error_events cmd = [Raised UnicodeEncodeError, Print (error_msg cmd UnicodeEncodeError)]"

definition report_events :: "stream \<Rightarrow> string list \<Rightarrow> int \<Rightarrow> string \<Rightarrow> string \<Rightarrow> event list" where
  "report_events out cmd rc sout serr =
     (if rc = 0 then
        (if can_print out (ok_msg cmd) then
           Print (ok_msg cmd) #
             (if last cmd = ''status'' then
                (if can_print out sout then [Print sout] else encode_error_events cmd)
              else [])
         else encode_error_events cmd)
      else
        (if can_print out (failed_msg cmd serr) then [Print (failed_msg cmd serr)]
         else encode_error_events cmd))"

text \<open>The events of one turn of the third loop, from what the process does.\<close>

definition command_events :: "stream \<Rightarrow> string list \<Rightarrow> proc \<Rightarrow> event list" where
  "command_events out cmd p =
     (case p of
        NotStarted \<Rightarrow>
          [Run cmd 30 0, Raised (no_executable cmd), Print (error_msg cmd (no_executable cmd))]
      | Hung \<Rightarrow> [Run cmd 30 30, Raised (timeout_expired cmd 30), Print (timeout_msg cmd)]
      | Garbled d \<Rightarrow>
          (if d \<le> 30 then
             [Run cmd 30 d, Raised UnicodeDecodeError, Print (error_msg cmd UnicodeDecodeError)]
           else [Run cmd 30 30, Raised (timeout_expired cmd 30), Print (timeout_msg cmd)])
      | Exited d rc sout serr \<Rightarrow>
          (if d \<le> 30 then Run cmd 30 d # Returned rc sout serr # report_events out cmd rc sout serr
           else [Run cmd 30 30, Raised (timeout_expired cmd 30), Print (timeout_msg cmd)]))"


subsection \<open>Runs to try things on\<close>

text \<open>
  Nodes: a file that the search reaches and the process can delete; one that it may not
  delete; a directory; a file below a symbolic link to a directory, which the search
  does not reach; a file below a directory that the process may not enter.
\<close>

definition plain_file :: node where
  "plain_file = Node (File True) True True"

definition locked_file :: node where
  "locked_file = Node (File False) True True"

definition plain_dir :: node where
  "plain_dir = Node Dir True True"

definition linked_file :: node where
  "linked_file = Node (File True) False True"

definition hidden_file :: node where
  "hidden_file = Node (File True) False False"

text \<open>
  Streams: a UTF-8 stream, which encodes every text but a file name with a byte that is
  not valid UTF-8 (here the byte \<open>0xFF\<close>); an ASCII stream; a UTF-8 stream to a file on
  a full disk, buffered and unbuffered.
\<close>

definition utf8 :: stream where
  "utf8 = \<lparr>encodes = (\<lambda>c. c \<noteq> CHR 0xFF), buffered = True, write_error = None\<rparr>"




text \<open>
  A repository with a deletable lock file, a lock file the process may not delete and a
  directory whose name ends in \<^verbatim>\<open>.lock\<close>; a shell where \<^verbatim>\<open>git fetch\<close> never
  returns, \<^verbatim>\<open>git status\<close> succeeds, and every other command fails and leaves
  \<^verbatim>\<open>.git/index.lock\<close> behind.
\<close>

definition example_repo :: fsys where
  "example_repo =
     \<lparr>nodes = [(''.git/index.lock'', plain_file), (''README'', plain_file),
               (''.git/refs/heads/main.lock'', locked_file), (''.git/x.lock'', plain_dir)],
      too_deep = False\<rparr>"

definition example_shell :: shell where
  "example_shell argv f =
     (if argv = [''git'', ''fetch'', ''--all''] then (Hung, f)
      else if argv = [''git'', ''status''] then (Exited 2 0 ''clean'' [], f)
      else (Exited 1 1 [] ''bad'', f\<lparr>nodes := (''.git/index.lock'', plain_file) # nodes f\<rparr>))"

text \<open>A shell whose commands all succeed at once and touch no file:\<close>

definition quiet_git :: shell where
  "quiet_git argv f = (Exited 1 0 [] [], f)"







definition locked_repo :: fsys where
  "locked_repo = \<lparr>nodes = [(''.git/index.lock'', locked_file)], too_deep = False\<rparr>"

definition half_locked_repo :: fsys where
  "half_locked_repo =
     \<lparr>nodes = [(''.git/index.lock'', plain_file), (''.git/refs/heads/main.lock'', locked_file)],
      too_deep = False\<rparr>"

definition two_locks_repo :: fsys where
  "two_locks_repo =
     \<lparr>nodes = [(''.git/refs/heads/main.lock'', linked_file), (''src/main.py'', plain_file),
               (''.git/index.lock'', plain_file), (''.git/index'', plain_file)],
      too_deep = False\<rparr>"




text \<open>A repository whose \<^verbatim>\<open>.git\<close> directory the process may neither read nor enter:\<close>

definition unreadable_repo :: fsys where
  "unreadable_repo =
     \<lparr>nodes = [(''.git/index.lock'', hidden_file), (''.git/modules/x.lock'', hidden_file)],
      too_deep = False\<rparr>"

section \<open>Sequencing\<close>

lemma outcome_simp [simp]: "outcome (r, f, es) = r"
  by (simp add: outcome_def)

lemma fs_after_simp [simp]: "fs_after (r, f, es) = f"
  by (simp add: fs_after_def)

lemma trace_simp [simp]: "trace (r, f, es) = es"
  by (simp add: trace_def)

lemma act_bind_ok:
  "m f = (Inr x, f', es) \<Longrightarrow>
   act_bind m k f = (outcome (k x f'), fs_after (k x f'), es @ trace (k x f'))"
  by (simp add: act_bind_def outcome_def fs_after_def trace_def split: prod.splits)

lemma act_seq_ok:
  "outcome (m f) = Inr () \<Longrightarrow>
   act_seq m n f =
     (outcome (n (fs_after (m f))), fs_after (n (fs_after (m f))),
      trace (m f) @ trace (n (fs_after (m f))))"
  by (cases "m f")
     (simp add: act_seq_def act_bind_def outcome_def fs_after_def trace_def split: prod.splits)

lemma act_seq_raise:
  "outcome (m f) = Inl e \<Longrightarrow> act_seq m n f = (Inl e, fs_after (m f), trace (m f))"
  by (cases "m f")
     (simp add: act_seq_def act_bind_def outcome_def fs_after_def trace_def split: prod.splits)

lemma act_seq_assoc: "act_seq (act_seq a b) c = act_seq a (act_seq b c)"
  by (rule ext)
     (simp add: act_seq_def act_bind_def split: prod.splits sum.splits)

lemma act_seq_bind_assoc:
  "act_seq (act_bind m k) c = act_bind m (\<lambda>x. act_seq (k x) c)"
  by (rule ext)
     (simp add: act_seq_def act_bind_def split: prod.splits sum.splits)

lemma for_each_Cons:
  assumes "outcome (body x f) = Inr ()"
  shows "for_each (x # xs) body f =
           (outcome (for_each xs body (fs_after (body x f))),
            fs_after (for_each xs body (fs_after (body x f))),
            trace (body x f) @ trace (for_each xs body (fs_after (body x f))))"
  using assms by (simp add: act_seq_ok)

lemma for_each_Cons_raise:
  assumes "outcome (body x f) = Inl e"
  shows "for_each (x # xs) body f = (Inl e, fs_after (body x f), trace (body x f))"
  using assms by (simp add: act_seq_raise)

lemma for_each_returns:
  assumes "\<And>x f. x \<in> set xs \<Longrightarrow> outcome (body x f) = Inr ()"
  shows "outcome (for_each xs body f) = Inr ()"
  using assms
proof (induction xs arbitrary: f)
  case Nil
  show ?case by (simp add: act_return_def)
next
  case (Cons x xs)
  have "outcome (body x f) = Inr ()" using Cons.prems by simp
  then show ?case using Cons by (simp add: for_each_Cons del: for_each.simps)
qed

section \<open>What standard output can print\<close>

lemma can_print_Nil [simp]: "can_print out []"
  by (simp add: can_print_def)

lemma can_print_Cons [simp]:
  "can_print out (c # s) = ((is_ascii c \<or> encodes out c) \<and> can_print out s)"
  by (simp add: can_print_def)

lemma can_print_append [simp]:
  "can_print out (a @ b) = (can_print out a \<and> can_print out b)"
  by (simp add: can_print_def)

lemma can_print_ascii: "\<forall>c \<in> set s. is_ascii c \<Longrightarrow> can_print out s"
  by (simp add: can_print_def list_all_iff)

lemma is_ascii_hex_digit: "is_ascii (hex_digit n)"
proof -
  have "hex_digit n \<in> set ''0123456789abcdef''"
    unfolding hex_digit_def by (rule nth_mem) simp
  then show ?thesis by (auto simp: is_ascii_def)
qed

lemma is_ascii_repr_quote: "is_ascii (repr_quote s)"
  by (simp add: repr_quote_def is_ascii_def)

lemma can_print_repr_char:
  "is_ascii q \<Longrightarrow> can_print out (repr_char q c) = (is_ascii c \<or> encodes out c)"
proof -
  have h: "\<not> digit7 (hex_digit n)" for n
    using is_ascii_hex_digit [of n] by (simp add: is_ascii_def)
  show "is_ascii q \<Longrightarrow> can_print out (repr_char q c) = (is_ascii c \<or> encodes out c)"
    by (auto simp: repr_char_def is_control_def is_ascii_def h)
qed

lemma can_print_concat_repr:
  "is_ascii q \<Longrightarrow> can_print out (concat (map (repr_char q) s)) = can_print out s"
  by (induction s) (simp_all add: can_print_repr_char)

lemma can_print_py_repr: "can_print out (py_repr s) = can_print out s"
  using is_ascii_repr_quote [of s]
  by (simp add: py_repr_def can_print_concat_repr)

lemma can_print_removed_lock_file_msg:
  "can_print out (removed_lock_file_msg p) = can_print out p"
  by (simp add: removed_lock_file_msg_def is_ascii_def)

lemma can_print_removed_msg: "can_print out (removed_msg p) = can_print out p"
  by (simp add: removed_msg_def is_ascii_def)

lemma can_print_could_not_remove_msg:
  "can_print out (could_not_remove_msg p e) = (can_print out p \<and> can_print out (str_exn e))"
  by (simp add: could_not_remove_msg_def is_ascii_def)

lemma can_print_unlink_error:
  "unlink_error p n = Some e \<Longrightarrow> can_print out (str_exn e) = can_print out p"
  by (auto simp: unlink_error_def can_print_py_repr is_ascii_def
      split: option.splits node.splits kind.splits if_splits)

lemma can_print_encode_error [simp]: "can_print out (str_exn UnicodeEncodeError)"
  by (simp add: is_ascii_def)

lemma can_print_decode_error [simp]: "can_print out (str_exn UnicodeDecodeError)"
  by (simp add: is_ascii_def)

lemma specific_locks_printable: "p \<in> set specific_locks \<Longrightarrow> can_print out p"
  by (auto simp: specific_locks_def is_ascii_def)

lemma commands_nonempty: "cmd \<in> set commands \<Longrightarrow> cmd \<noteq> []"
  by (auto simp: commands_def)

lemma commands_printable: "cmd \<in> set commands \<Longrightarrow> can_print out (join '' '' cmd)"
  by (auto simp: commands_def is_ascii_def)

lemma can_print_timeout_msg: "cmd \<in> set commands \<Longrightarrow> can_print out (timeout_msg cmd)"
  by (simp add: timeout_msg_def commands_printable is_ascii_def)

lemma can_print_no_executable:
  "cmd \<in> set commands \<Longrightarrow> can_print out (str_exn (no_executable cmd))"
  by (auto simp: no_executable_def commands_def can_print_py_repr is_ascii_def)

lemma can_print_error_msg:
  "cmd \<in> set commands \<Longrightarrow> can_print out (error_msg cmd e) = can_print out (str_exn e)"
  by (simp add: error_msg_def commands_printable is_ascii_def)

lemma can_print_error_msgs:
  assumes "cmd \<in> set commands"
  shows "can_print out (error_msg cmd UnicodeEncodeError)"
    and "can_print out (error_msg cmd UnicodeDecodeError)"
    and "can_print out (error_msg cmd (no_executable cmd))"
  using can_print_error_msg [OF assms, of out] can_print_no_executable [OF assms, of out]
    can_print_encode_error [of out] can_print_decode_error [of out]
  by blast+

lemma can_print_header [simp]: "can_print out ''Force-resolving Git lock and conflicts...''"
  by (simp add: is_ascii_def)

lemma can_print_closing [simp]:
  "can_print out (CHR 0x0A # ''Git resolution attempt complete.'')"
  "can_print out ''Try running: git status''"
  by (simp_all add: is_ascii_def)

section \<open>One turn of each loop\<close>

lemma py_print_ok:
  "blocked out = None \<Longrightarrow>
   py_print out s = (if can_print out s then emit (Print s) else act_raise UnicodeEncodeError)"
  by (simp add: py_print_def)

lemma py_print_blocked:
  "blocked out = Some e \<Longrightarrow> can_print out s \<Longrightarrow> py_print out s = act_raise e"
  by (simp add: py_print_def)

lemma unlink_error_is_Exception: "unlink_error p n = Some e \<Longrightarrow> is_Exception e"
  by (auto simp: unlink_error_def split: option.splits node.splits kind.splits if_splits)

lemma unlink_error_None_iff:
  "unlink_error p n = None \<longleftrightarrow> (\<exists>l. n = Some (Node (File True) l True))"
  by (auto simp: unlink_error_def split: option.splits node.splits kind.splits)

lemma unlink_eq:
  "unlink p f =
     (case unlink_error p (node_at f p) of
        None \<Rightarrow> (Inr (), delete_path p f, [Unlink p])
      | Some e \<Rightarrow> (Inl e, f, [Unlink p, Raised e]))"
  by (simp add: unlink_def act_seq_def act_bind_def emit_def act_raise_def split: option.splits)

lemma remove_lock_file_eq:
  assumes ok: "blocked out = None"
  shows "remove_lock_file out p f =
     (case unlink_error p (node_at f p) of
        None \<Rightarrow>
          (if can_print out p
           then (Inr (), delete_path p f, [Unlink p, Print (removed_lock_file_msg p)])
           else (Inl UnicodeEncodeError, delete_path p f,
                 [Unlink p, Raised UnicodeEncodeError, Raised UnicodeEncodeError]))
      | Some e \<Rightarrow>
          (if can_print out p
           then (Inr (), f, [Unlink p, Raised e, Print (could_not_remove_msg p e)])
           else (Inl UnicodeEncodeError, f, [Unlink p, Raised e, Raised UnicodeEncodeError])))"
proof (cases "unlink_error p (node_at f p)")
  case None
  then show ?thesis
    by (simp add: remove_lock_file_def try_except_def act_seq_def act_bind_def unlink_eq
          py_print_ok [OF ok] emit_def act_raise_def except_Exception_def
          can_print_removed_lock_file_msg can_print_could_not_remove_msg)
next
  case (Some e)
  then show ?thesis
    using unlink_error_is_Exception [OF Some] can_print_unlink_error [OF Some, of out]
    by (simp add: remove_lock_file_def try_except_def act_seq_def act_bind_def unlink_eq
          py_print_ok [OF ok] emit_def act_raise_def except_Exception_def
          can_print_could_not_remove_msg)
qed

lemma remove_specific_lock_eq:
  assumes ok: "blocked out = None" and pr: "can_print out p"
  shows "remove_specific_lock out p f =
     (if \<not> exists_in f p then (Inr (), f, [])
      else case unlink_error p (node_at f p) of
        None \<Rightarrow> (Inr (), delete_path p f, [Unlink p, Print (removed_msg p)])
      | Some e \<Rightarrow> (Inr (), f, [Unlink p, Raised e, Print (could_not_remove_msg p e)]))"
proof (cases "unlink_error p (node_at f p)")
  case None
  then show ?thesis
    using pr
    by (simp add: remove_specific_lock_def try_except_def act_seq_def act_bind_def unlink_eq
          os_remove_def os_path_exists_def act_return_def
          py_print_ok [OF ok] emit_def act_raise_def except_Exception_def can_print_removed_msg)
next
  case (Some e)
  then show ?thesis
    using pr unlink_error_is_Exception [OF Some] can_print_unlink_error [OF Some, of out]
    by (simp add: remove_specific_lock_def try_except_def act_seq_def act_bind_def unlink_eq
          os_remove_def os_path_exists_def act_return_def
          py_print_ok [OF ok] emit_def act_raise_def except_Exception_def
          can_print_could_not_remove_msg)
qed

lemma is_TimeoutExpired_timeout_expired [simp]: "is_TimeoutExpired (timeout_expired cmd t)"
  by (simp add: timeout_expired_def)

lemma not_timeout_no_executable [simp]: "\<not> is_TimeoutExpired (no_executable cmd)"
  by (simp add: no_executable_def)

lemma is_Exception_no_executable [simp]: "is_Exception (no_executable cmd)"
  by (simp add: no_executable_def)

lemma run_command_eq:
  assumes ok: "blocked out = None" and cmd: "cmd \<in> set commands"
  shows "run_command out sh cmd f =
           (Inr (), snd (sh cmd f), command_events out cmd (fst (sh cmd f)))"
proof -
  note pr = can_print_timeout_msg [OF cmd, of out] can_print_error_msgs [OF cmd, of out]
    commands_nonempty [OF cmd]
  show ?thesis
  proof (cases "sh cmd f")
    case (Pair p f')
    show ?thesis
    proof (cases p)
      case (Exited d rc sout serr)
      then show ?thesis
        using Pair pr
        by (simp add: run_command_def try_except_def act_seq_def act_bind_def
              subprocess_run_def py_last_def act_return_def act_raise_def
              py_print_ok [OF ok] emit_def except_Exception_def command_events_def
              report_events_def encode_error_events_def)
    next
      case (Garbled d)
      then show ?thesis
        using Pair pr
        by (simp add: run_command_def try_except_def act_seq_def act_bind_def
              subprocess_run_def act_raise_def
              py_print_ok [OF ok] emit_def except_Exception_def command_events_def)
    next
      case Hung
      then show ?thesis
        using Pair pr
        by (simp add: run_command_def try_except_def act_seq_def act_bind_def
              subprocess_run_def act_raise_def
              py_print_ok [OF ok] emit_def except_Exception_def command_events_def)
    next
      case NotStarted
      then show ?thesis
        using Pair pr
        by (simp add: run_command_def try_except_def act_seq_def act_bind_def
              subprocess_run_def act_raise_def
              py_print_ok [OF ok] emit_def except_Exception_def command_events_def)
    qed
  qed
qed

section \<open>The three loops\<close>

lemma remove_lock_file_outcome:
  assumes ok: "blocked out = None"
  shows "outcome (remove_lock_file out p f) =
     (if can_print out p then Inr () else Inl UnicodeEncodeError)"
  by (simp add: remove_lock_file_eq [OF ok] split: option.splits)

lemma first_loop_outcome:
  assumes ok: "blocked out = None"
  shows "outcome (for_each ps (remove_lock_file out) f) =
     (if \<forall>p \<in> set ps. can_print out p then Inr () else Inl UnicodeEncodeError)"
proof (induction ps arbitrary: f)
  case Nil
  show ?case by (simp add: act_return_def)
next
  case (Cons p ps)
  show ?case
  proof (cases "can_print out p")
    case True
    then show ?thesis
      using Cons.IH
      by (simp add: for_each_Cons remove_lock_file_outcome [OF ok] del: for_each.simps)
  next
    case False
    then show ?thesis
      by (simp add: for_each_Cons_raise [where e = UnicodeEncodeError]
            remove_lock_file_outcome [OF ok] del: for_each.simps)
  qed
qed

lemma remove_specific_lock_returns:
  assumes ok: "blocked out = None" and pr: "can_print out p"
  shows "outcome (remove_specific_lock out p f) = Inr ()"
  by (simp add: remove_specific_lock_eq [OF ok pr] split: option.splits)

lemma second_loop_returns:
  assumes ok: "blocked out = None" and pr: "\<forall>p \<in> set ps. can_print out p"
  shows "outcome (for_each ps (remove_specific_lock out) f) = Inr ()"
  by (rule for_each_returns) (simp add: remove_specific_lock_returns [OF ok] pr)

lemma run_command_returns:
  assumes ok: "blocked out = None" and cmd: "cmd \<in> set commands"
  shows "outcome (run_command out sh cmd f) = Inr ()"
  by (simp add: run_command_eq [OF ok cmd])

lemma third_loop_returns:
  assumes ok: "blocked out = None" and cs: "set cs \<subseteq> set commands"
  shows "outcome (for_each cs (run_command out sh) f) = Inr ()"
  using cs by (intro for_each_returns) (auto simp: run_command_returns [OF ok])

section \<open>The cleanup and the routine\<close>

lemma print_header:
  assumes ok: "blocked out = None"
  shows "py_print out ''Force-resolving Git lock and conflicts...'' =
     emit (Print ''Force-resolving Git lock and conflicts...'')"
  unfolding py_print_ok [OF ok] using can_print_header [of out] by (simp only: if_True)

lemma print_header_blocked:
  assumes "blocked out = Some e"
  shows "py_print out ''Force-resolving Git lock and conflicts...'' = act_raise e"
  by (rule py_print_blocked [OF assms can_print_header])

lemma print_closing:
  assumes ok: "blocked out = None"
  shows "py_print out (CHR 0x0A # ''Git resolution attempt complete.'') =
     emit (Print (CHR 0x0A # ''Git resolution attempt complete.''))"
    and "py_print out ''Try running: git status'' = emit (Print ''Try running: git status'')"
  unfolding py_print_ok [OF ok] using can_print_closing [of out] by (simp_all only: if_True)

lemma lock_files_of_deep: "too_deep f \<Longrightarrow> lock_files_of f = []"
  by (simp add: lock_files_of_def rglob_def act_raise_def)

lemma lock_files_of_eq:
  "\<not> too_deep f \<Longrightarrow>
   lock_files_of f =
     filter (\<lambda>p. below git_dir p \<and> fnmatch ''*.lock'' (basename p))
       (map fst (filter (\<lambda>e. listed (snd e)) (nodes f)))"
  by (simp add: rglob_def lock_files_of_def)

lemma rglob_lock_files:
  "\<not> too_deep f \<Longrightarrow> rglob git_dir ''*.lock'' f = (Inr (lock_files_of f), f, [])"
  by (simp add: rglob_def lock_files_of_eq)

lemma rglob_raises:
  "too_deep f \<Longrightarrow> rglob git_dir ''*.lock'' f = (Inl RecursionError, f, [Raised RecursionError])"
  by (simp add: rglob_def act_raise_def)



lemma not_cut_short:
  assumes "\<not> cut_short out f"
  shows "blocked out = None" and "\<not> too_deep f" and "\<forall>p \<in> set (lock_files_of f). can_print out p"
  using assms by (auto simp: cut_short_def)

lemma lock_cleanup_blocked:
  assumes "blocked out = Some e"
  shows "lock_cleanup out f = (Inl e, f, [Raised e])"
  by (simp add: lock_cleanup_def act_seq_def act_bind_def print_header_blocked [OF assms]
        act_raise_def)

lemma lock_cleanup_deep:
  assumes ok: "blocked out = None" and "too_deep f"
  shows "lock_cleanup out f =
           (Inl RecursionError, f,
            [Print ''Force-resolving Git lock and conflicts...'', Raised RecursionError])"
  using assms(2)
  by (simp add: lock_cleanup_def act_seq_def act_bind_def print_header [OF ok] emit_def
        rglob_raises)

lemma lock_cleanup_unprintable:
  assumes ok: "blocked out = None" and nd: "\<not> too_deep f"
    and np: "\<not> (\<forall>p \<in> set (lock_files_of f). can_print out p)"
  shows "lock_cleanup out f =
           (Inl UnicodeEncodeError,
            fs_after (for_each (lock_files_of f) (remove_lock_file out) f),
            Print ''Force-resolving Git lock and conflicts...'' #
            trace (for_each (lock_files_of f) (remove_lock_file out) f))"
proof -
  have o: "outcome (for_each (lock_files_of f) (remove_lock_file out) f) = Inl UnicodeEncodeError"
    using np by (simp add: first_loop_outcome [OF ok])
  have "act_bind (rglob git_dir ''*.lock'') k f =
          (outcome (k (lock_files_of f) f), fs_after (k (lock_files_of f) f),
           trace (k (lock_files_of f) f))" for k :: "path list \<Rightarrow> unit action"
    using act_bind_ok [where m = "rglob git_dir ''*.lock''" and f = f and k = k,
            OF rglob_lock_files [OF nd]]
    by simp
  then show ?thesis
    using act_seq_raise [where m = "for_each (lock_files_of f) (remove_lock_file out)"
            and f = f and e = UnicodeEncodeError
            and n = "for_each specific_locks (remove_specific_lock out)", OF o]
    by (simp add: lock_cleanup_def act_seq_ok print_header [OF ok] emit_def)
qed

lemma lock_cleanup_eq:
  assumes "\<not> cut_short out f"
  shows "lock_cleanup out f =
     (Inr (),
      fs_after (for_each specific_locks (remove_specific_lock out)
                  (fs_after (for_each (lock_files_of f) (remove_lock_file out) f))),
      Print ''Force-resolving Git lock and conflicts...'' #
      trace (for_each (lock_files_of f) (remove_lock_file out) f) @
      trace (for_each specific_locks (remove_specific_lock out)
               (fs_after (for_each (lock_files_of f) (remove_lock_file out) f))))"
proof -
  note ok = not_cut_short(1) [OF assms] and nd = not_cut_short(2) [OF assms]
    and pr = not_cut_short(3) [OF assms]
  have o: "outcome (for_each (lock_files_of f) (remove_lock_file out) f) = Inr ()"
    using pr by (simp add: first_loop_outcome [OF ok])
  have sp: "\<forall>p \<in> set specific_locks. can_print out p"
    by (simp add: specific_locks_printable)
  have "act_bind (rglob git_dir ''*.lock'') k f =
          (outcome (k (lock_files_of f) f), fs_after (k (lock_files_of f) f),
           trace (k (lock_files_of f) f))" for k :: "path list \<Rightarrow> unit action"
    using act_bind_ok [where m = "rglob git_dir ''*.lock''" and f = f and k = k,
            OF rglob_lock_files [OF nd]]
    by simp
  then show ?thesis
    using second_loop_returns [OF ok sp]
    by (simp add: lock_cleanup_def act_seq_ok print_header [OF ok] emit_def o)
qed

lemma lock_cleanup_outcome:
  "outcome (lock_cleanup out f) = Inr () \<longleftrightarrow> \<not> cut_short out f"
proof (cases "blocked out")
  case (Some e)
  then show ?thesis by (simp add: lock_cleanup_blocked cut_short_def)
next
  case ok: None
  show ?thesis
  proof (cases "too_deep f")
    case True
    then show ?thesis by (simp add: lock_cleanup_deep [OF ok] cut_short_def)
  next
    case False
    show ?thesis
    proof (cases "\<forall>p \<in> set (lock_files_of f). can_print out p")
      case True
      then have "\<not> cut_short out f" using False ok by (simp add: cut_short_def)
      then show ?thesis by (simp add: lock_cleanup_eq)
    next
      case nt: False
      then have "cut_short out f" by (auto simp: cut_short_def)
      then show ?thesis using lock_cleanup_unprintable [OF ok False nt] by simp
    qed
  qed
qed

lemma command_runner_eq:
  assumes ok: "blocked out = None"
  shows "command_runner out sh g =
     (Inr (), fs_after (for_each commands (run_command out sh) g),
      trace (for_each commands (run_command out sh) g) @ closing_lines)"
  by (simp add: command_runner_def act_seq_ok print_closing [OF ok] emit_def
        third_loop_returns [OF ok] closing_lines_def)

lemma force_git_resolution_split:
  "force_git_resolution out sh = act_seq (lock_cleanup out) (command_runner out sh)"
  by (simp only: force_git_resolution_def lock_cleanup_def command_runner_def
        act_seq_assoc act_seq_bind_assoc)

lemma force_git_resolution_eq:
  assumes "\<not> cut_short out f"
  shows "force_git_resolution out sh f =
     (Inr (), fs_after (command_runner out sh (fs_after (lock_cleanup out f))),
      trace (lock_cleanup out f) @ trace (command_runner out sh (fs_after (lock_cleanup out f))))"
  using assms
  by (simp add: force_git_resolution_split act_seq_ok lock_cleanup_eq
        command_runner_eq [OF not_cut_short(1) [OF assms]])

lemma force_git_resolution_cut_short:
  assumes "cut_short out f"
  shows "force_git_resolution out sh f = lock_cleanup out f"
proof -
  obtain e where e: "outcome (lock_cleanup out f) = Inl e"
    using assms lock_cleanup_outcome [of out f]
    by (cases "outcome (lock_cleanup out f)") auto
  show ?thesis
    using act_seq_raise [where m = "lock_cleanup out" and f = f and e = e
            and n = "command_runner out sh", OF e] e
    by (cases "lock_cleanup out f") (simp add: force_git_resolution_split)
qed


lemma force_git_resolution_outcome:
  "outcome (force_git_resolution out sh f) = Inr () \<longleftrightarrow> \<not> cut_short out f"
proof (cases "cut_short out f")
  case True
  then show ?thesis
    using lock_cleanup_outcome [of out f] by (simp add: force_git_resolution_cut_short)
next
  case False
  then show ?thesis by (simp add: force_git_resolution_eq)
qed

lemma trace_force_git_resolution:
  "trace (force_git_resolution out sh f) =
     trace (lock_cleanup out f) @
     (if cut_short out f then []
      else trace (command_runner out sh (fs_after (lock_cleanup out f))))"
  by (simp add: force_git_resolution_eq force_git_resolution_cut_short)

section \<open>Unfolding the loops\<close>

lemma first_loop_Cons:
  assumes ok: "blocked out = None"
  shows "trace (for_each (p # ps) (remove_lock_file out) f) =
     trace (remove_lock_file out p f) @
     (if can_print out p
      then trace (for_each ps (remove_lock_file out) (fs_after (remove_lock_file out p f)))
      else [])"
    and "fs_after (for_each (p # ps) (remove_lock_file out) f) =
     (if can_print out p
      then fs_after (for_each ps (remove_lock_file out) (fs_after (remove_lock_file out p f)))
      else fs_after (remove_lock_file out p f))"
proof -
  have r: "outcome (remove_lock_file out p f) = Inl UnicodeEncodeError" if "\<not> can_print out p"
    using that by (simp add: remove_lock_file_outcome [OF ok])
  have o: "outcome (remove_lock_file out p f) = Inr ()" if "can_print out p"
    using that by (simp add: remove_lock_file_outcome [OF ok])
  show "trace (for_each (p # ps) (remove_lock_file out) f) =
     trace (remove_lock_file out p f) @
     (if can_print out p
      then trace (for_each ps (remove_lock_file out) (fs_after (remove_lock_file out p f)))
      else [])"
    using for_each_Cons [where body = "remove_lock_file out" and x = p and f = f and xs = ps]
      for_each_Cons_raise [where body = "remove_lock_file out" and x = p and f = f and xs = ps
        and e = UnicodeEncodeError] r o
    by (cases "can_print out p") (simp_all del: for_each.simps)
  show "fs_after (for_each (p # ps) (remove_lock_file out) f) =
     (if can_print out p
      then fs_after (for_each ps (remove_lock_file out) (fs_after (remove_lock_file out p f)))
      else fs_after (remove_lock_file out p f))"
    using for_each_Cons [where body = "remove_lock_file out" and x = p and f = f and xs = ps]
      for_each_Cons_raise [where body = "remove_lock_file out" and x = p and f = f and xs = ps
        and e = UnicodeEncodeError] r o
    by (cases "can_print out p") (simp_all del: for_each.simps)
qed

lemma second_loop_Cons:
  assumes ok: "blocked out = None" and pr: "can_print out p"
  shows "trace (for_each (p # ps) (remove_specific_lock out) g) =
           trace (remove_specific_lock out p g) @
           trace (for_each ps (remove_specific_lock out) (fs_after (remove_specific_lock out p g)))"
    and "fs_after (for_each (p # ps) (remove_specific_lock out) g) =
           fs_after (for_each ps (remove_specific_lock out)
                       (fs_after (remove_specific_lock out p g)))"
  using for_each_Cons [where body = "remove_specific_lock out" and x = p and f = g and xs = ps]
    remove_specific_lock_returns [OF ok pr, of g]
  by (simp_all del: for_each.simps)

lemma third_loop_Cons:
  assumes ok: "blocked out = None" and c: "c \<in> set commands"
  shows "trace (for_each (c # cs) (run_command out sh) g) =
           command_events out c (fst (sh c g)) @
           trace (for_each cs (run_command out sh) (snd (sh c g)))"
    and "fs_after (for_each (c # cs) (run_command out sh) g) =
           fs_after (for_each cs (run_command out sh) (snd (sh c g)))"
  using for_each_Cons [where body = "run_command out sh" and x = c and f = g and xs = cs]
  by (simp_all add: run_command_eq [OF ok c] del: for_each.simps)

section \<open>The commands that a run invokes\<close>

lemma invoked_append: "invoked (xs @ ys) = invoked xs @ invoked ys"
  by (induction xs rule: invoked.induct) simp_all

lemma invoked_mem: "c \<in> set (invoked es) \<Longrightarrow> \<exists>t d. Run c t d \<in> set es"
  by (induction es rule: invoked.induct) auto

lemma invoked_none: "(\<And>argv t d. Run argv t d \<notin> set es) \<Longrightarrow> invoked es = []"
  by (induction es rule: invoked.induct) auto

lemma Run_notin_remove_lock_file:
  assumes ok: "blocked out = None"
  shows "Run argv t d \<notin> set (trace (remove_lock_file out p f))"
  by (simp add: remove_lock_file_eq [OF ok] split: option.splits)

lemma Run_notin_first_loop:
  assumes ok: "blocked out = None"
  shows "Run argv t d \<notin> set (trace (for_each ps (remove_lock_file out) f))"
proof (induction ps arbitrary: f)
  case Nil
  show ?case by (simp add: act_return_def)
next
  case (Cons p ps)
  show ?case
    using Cons Run_notin_remove_lock_file [OF ok]
    by (simp add: first_loop_Cons [OF ok] del: for_each.simps)
qed

lemma Run_notin_second_loop:
  assumes ok: "blocked out = None"
  shows "\<forall>p \<in> set ps. can_print out p \<Longrightarrow>
   Run argv t d \<notin> set (trace (for_each ps (remove_specific_lock out) g))"
proof (induction ps arbitrary: g)
  case Nil
  show ?case by (simp add: act_return_def)
next
  case (Cons p ps)
  have pr: "can_print out p" using Cons.prems by simp
  have "Run argv t d \<notin> set (trace (remove_specific_lock out p g))"
    by (simp add: remove_specific_lock_eq [OF ok pr] split: option.splits)
  then show ?case
    using Cons by (simp add: second_loop_Cons [OF ok pr] del: for_each.simps)
qed

lemma Run_notin_lock_cleanup: "Run argv t d \<notin> set (trace (lock_cleanup out f))"
proof (cases "blocked out")
  case (Some e)
  then show ?thesis by (simp add: lock_cleanup_blocked)
next
  case ok: None
  show ?thesis
  proof (cases "too_deep f")
    case True
    then show ?thesis by (simp add: lock_cleanup_deep [OF ok])
  next
    case False
    show ?thesis
    proof (cases "\<forall>p \<in> set (lock_files_of f). can_print out p")
      case True
      then have "\<not> cut_short out f" using False ok by (simp add: cut_short_def)
      then show ?thesis
        using Run_notin_second_loop [OF ok, of specific_locks] specific_locks_printable [of _ out]
        by (simp add: lock_cleanup_eq Run_notin_first_loop [OF ok])
    next
      case nt: False
      show ?thesis
        by (simp add: lock_cleanup_unprintable [OF ok False nt] Run_notin_first_loop [OF ok])
    qed
  qed
qed

lemma invoked_lock_cleanup: "invoked (trace (lock_cleanup out f)) = []"
  by (rule invoked_none) (rule Run_notin_lock_cleanup)

lemma invoked_command_events: "invoked (command_events out cmd p) = [cmd]"
  by (simp add: command_events_def report_events_def encode_error_events_def
        split: proc.splits)

lemma invoked_third_loop:
  assumes ok: "blocked out = None"
  shows "set cs \<subseteq> set commands \<Longrightarrow> invoked (trace (for_each cs (run_command out sh) g)) = cs"
proof (induction cs arbitrary: g)
  case Nil
  show ?case by (simp add: act_return_def)
next
  case (Cons c cs)
  then show ?case
    by (simp add: third_loop_Cons [OF ok] invoked_append invoked_command_events
          del: for_each.simps)
qed

lemma invoked_command_runner:
  assumes ok: "blocked out = None"
  shows "invoked (trace (command_runner out sh g)) = commands"
  by (simp add: command_runner_eq [OF ok] invoked_append invoked_third_loop [OF ok]
        closing_lines_def)

lemma invoked_force_git_resolution:
  "invoked (trace (force_git_resolution out sh f)) = (if cut_short out f then [] else commands)"
proof (cases "cut_short out f")
  case True
  then show ?thesis by (simp add: trace_force_git_resolution invoked_lock_cleanup)
next
  case False
  then show ?thesis
    by (simp add: trace_force_git_resolution invoked_append invoked_lock_cleanup
          invoked_command_runner [OF not_cut_short(1) [OF False]])
qed

lemma Run_in_command_events:
  "Run argv t d \<in> set (command_events out cmd p) \<Longrightarrow> argv = cmd \<and> t = 30 \<and> d \<le> 30"
  by (auto simp: command_events_def report_events_def encode_error_events_def
      split: proc.splits if_splits)

lemma Run_in_third_loop:
  assumes ok: "blocked out = None" and cs: "set cs \<subseteq> set commands"
    and run: "Run argv t d \<in> set (trace (for_each cs (run_command out sh) g))"
  shows "argv \<in> set cs \<and> t = 30 \<and> d \<le> 30"
  using cs run
proof (induction cs arbitrary: g)
  case Nil
  then show ?case by (simp add: act_return_def)
next
  case (Cons c cs)
  from Cons.prems consider
    "Run argv t d \<in> set (command_events out c (fst (sh c g)))"
    | "Run argv t d \<in> set (trace (for_each cs (run_command out sh) (snd (sh c g))))"
    by (auto simp: third_loop_Cons [OF ok] simp del: for_each.simps)
  then show ?case
  proof cases
    case 1
    then show ?thesis using Run_in_command_events by fastforce
  next
    case 2
    have "argv \<in> set cs \<and> t = 30 \<and> d \<le> 30"
      using Cons.IH [of "snd (sh c g)"] Cons.prems(1) 2 by simp
    then show ?thesis by simp
  qed
qed

lemma Run_in_force_git_resolution:
  assumes "Run argv t d \<in> set (trace (force_git_resolution out sh f))"
  shows "argv \<in> set commands \<and> t = 30 \<and> d \<le> 30" and "\<not> cut_short out f"
proof -
  show nc: "\<not> cut_short out f"
    using assms Run_notin_lock_cleanup [of argv t d out f]
    by (auto simp: trace_force_git_resolution)
  note ok = not_cut_short(1) [OF nc]
  have "Run argv t d \<in> set (trace (for_each commands (run_command out sh)
                                      (fs_after (lock_cleanup out f))))"
    using assms Run_notin_lock_cleanup [of argv t d out f] nc
    by (simp add: trace_force_git_resolution command_runner_eq [OF ok] closing_lines_def)
  then show "argv \<in> set commands \<and> t = 30 \<and> d \<le> 30"
    using Run_in_third_loop [OF ok, of commands argv t d sh] by blast
qed

section \<open>What the cleanup does to the file system\<close>

lemma node_at_delete_path:
  "node_at (delete_path p f) q = (if q = p then None else node_at f q)"
proof -
  have "map_of (filter (\<lambda>e. fst e \<noteq> p) xs) q = (if q = p then None else map_of xs q)"
    for xs :: "(path \<times> node) list"
    by (induction xs) auto
  then show ?thesis by (simp add: node_at_def delete_path_def)
qed

lemma remove_lock_file_fs:
  assumes ok: "blocked out = None"
  shows "node_at (fs_after (remove_lock_file out p f)) q =
     (if q = p \<and> unlink_error p (node_at f p) = None then None else node_at f q)"
  by (cases "unlink_error p (node_at f p)")
     (auto simp: remove_lock_file_eq [OF ok] node_at_delete_path)

lemma exists_unless_error:
  "unlink_error p (node_at f p) = None \<Longrightarrow> exists_in f p"
  by (auto simp: unlink_error_None_iff exists_in_def)

lemma remove_specific_lock_fs:
  assumes ok: "blocked out = None" and pr: "can_print out p"
  shows "node_at (fs_after (remove_specific_lock out p f)) q =
     (if q = p \<and> unlink_error p (node_at f p) = None then None else node_at f q)"
  using exists_unless_error [of p f]
  by (cases "unlink_error p (node_at f p)")
     (auto simp: remove_specific_lock_eq [OF ok pr] node_at_delete_path)

lemma first_loop_frame:
  assumes ok: "blocked out = None"
  shows "q \<notin> set ps \<Longrightarrow>
    node_at (fs_after (for_each ps (remove_lock_file out) f)) q = node_at f q"
proof (induction ps arbitrary: f)
  case Nil
  show ?case by (simp add: act_return_def)
next
  case (Cons p ps)
  then show ?case
    by (simp add: first_loop_Cons [OF ok] remove_lock_file_fs [OF ok] del: for_each.simps)
qed

lemma first_loop_fs:
  assumes ok: "blocked out = None" and pr: "\<forall>p \<in> set ps. can_print out p"
  shows "node_at (fs_after (for_each ps (remove_lock_file out) f)) q =
     (if q \<in> set ps \<and> unlink_error q (node_at f q) = None then None else node_at f q)"
  using pr
proof (induction ps arbitrary: f)
  case Nil
  show ?case by (simp add: act_return_def)
next
  case (Cons p ps)
  have n: "unlink_error q None \<noteq> None"
    by (simp add: unlink_error_def)
  show ?case
    using Cons n
    by (auto simp: first_loop_Cons [OF ok] remove_lock_file_fs [OF ok] simp del: for_each.simps)
qed

lemma second_loop_fs:
  assumes ok: "blocked out = None" and pr: "\<forall>p \<in> set ps. can_print out p"
  shows "node_at (fs_after (for_each ps (remove_specific_lock out) g)) q =
     (if q \<in> set ps \<and> unlink_error q (node_at g q) = None then None else node_at g q)"
  using pr
proof (induction ps arbitrary: g)
  case Nil
  show ?case by (simp add: act_return_def)
next
  case (Cons p ps)
  have n: "unlink_error q None \<noteq> None"
    by (simp add: unlink_error_def)
  have p: "can_print out p" using Cons.prems by simp
  show ?case
    using Cons n
    by (auto simp: second_loop_Cons [OF ok p] remove_specific_lock_fs [OF ok p]
        simp del: for_each.simps)
qed

lemma lock_cleanup_fs:
  assumes "\<not> cut_short out f"
  shows "node_at (fs_after (lock_cleanup out f)) q =
     (if (q \<in> set (lock_files_of f) \<or> q \<in> set specific_locks)
         \<and> unlink_error q (node_at f q) = None
      then None else node_at f q)"
proof -
  note ok = not_cut_short(1) [OF assms] and pr = not_cut_short(3) [OF assms]
  have sp: "\<forall>p \<in> set specific_locks. can_print out p"
    by (simp add: specific_locks_printable)
  have n: "unlink_error q None \<noteq> None"
    by (simp add: unlink_error_def)
  show ?thesis
    using n
    by (auto simp: lock_cleanup_eq [OF assms] first_loop_fs [OF ok pr] second_loop_fs [OF ok sp])
qed


lemma third_loop_keeps_absent:
  assumes ok: "blocked out = None"
    and keep: "\<And>c g. c \<in> set commands \<Longrightarrow> node_at g p = None \<Longrightarrow>
             node_at (snd (sh c g)) p = None"
    and cs: "set cs \<subseteq> set commands"
    and ab: "node_at g p = None"
  shows "node_at (fs_after (for_each cs (run_command out sh) g)) p = None"
  using cs ab
proof (induction cs arbitrary: g)
  case Nil
  then show ?case by (simp add: act_return_def)
next
  case (Cons c cs)
  have "node_at (snd (sh c g)) p = None"
    using keep Cons.prems by simp
  then show ?case
    using Cons by (simp add: third_loop_Cons [OF ok] del: for_each.simps)
qed

lemma force_git_resolution_keeps_absent:
  assumes "\<forall>c \<in> set commands. \<forall>g. node_at g p = None \<longrightarrow> node_at (snd (sh c g)) p = None"
    and "node_at (fs_after (lock_cleanup out f)) p = None"
  shows "node_at (fs_after (force_git_resolution out sh f)) p = None"
proof (cases "cut_short out f")
  case True
  then show ?thesis using assms(2) by (simp add: force_git_resolution_cut_short)
next
  case False
  note ok = not_cut_short(1) [OF False]
  have "node_at (fs_after (for_each commands (run_command out sh)
                             (fs_after (lock_cleanup out f)))) p = None"
    using assms by (intro third_loop_keeps_absent [OF ok]) auto
  then show ?thesis
    by (simp add: force_git_resolution_eq [OF False] command_runner_eq [OF ok])
qed

section \<open>The unlink attempts and what is printed about them\<close>

lemma Unlink_in_first_loop:
  assumes ok: "blocked out = None"
  shows "Unlink p \<in> set (trace (for_each ps (remove_lock_file out) f)) \<Longrightarrow> p \<in> set ps"
proof (induction ps arbitrary: f)
  case Nil
  then show ?case by (simp add: act_return_def)
next
  case (Cons x xs)
  from Cons.prems consider "Unlink p \<in> set (trace (remove_lock_file out x f))"
    | "Unlink p \<in> set (trace (for_each xs (remove_lock_file out)
                                  (fs_after (remove_lock_file out x f))))"
    by (auto simp: first_loop_Cons [OF ok] simp del: for_each.simps split: if_splits)
  then show ?case
  proof cases
    case 1
    then show ?thesis
      by (simp add: remove_lock_file_eq [OF ok] split: option.splits if_splits)
  next
    case 2
    then show ?thesis using Cons.IH by simp
  qed
qed



lemma could_not_remove_logged_first_loop:
  assumes ok: "blocked out = None" and pr: "\<forall>p \<in> set ps. can_print out p"
    and mem: "p \<in> set ps" and er: "unlink_error p (node_at f p) = Some e"
  shows "Print (could_not_remove_msg p e) \<in> set (trace (for_each ps (remove_lock_file out) f))"
  using pr mem er
proof (induction ps arbitrary: f)
  case Nil
  then show ?case by simp
next
  case (Cons x xs)
  show ?case
  proof (cases "x = p")
    case True
    have "Print (could_not_remove_msg p e) \<in> set (trace (remove_lock_file out p f))"
      using True Cons.prems by (simp add: remove_lock_file_eq [OF ok])
    then show ?thesis
      using True Cons.prems(1) by (simp add: first_loop_Cons [OF ok] del: for_each.simps)
  next
    case False
    then have "node_at (fs_after (remove_lock_file out x f)) p = node_at f p"
      by (simp add: remove_lock_file_fs [OF ok])
    then have "Print (could_not_remove_msg p e)
                 \<in> set (trace (for_each xs (remove_lock_file out)
                                 (fs_after (remove_lock_file out x f))))"
      using Cons False by simp
    then show ?thesis
      using Cons.prems(1) by (simp add: first_loop_Cons [OF ok] del: for_each.simps)
  qed
qed

lemma removed_logged_first_loop:
  assumes ok: "blocked out = None" and pr: "\<forall>p \<in> set ps. can_print out p"
    and mem: "p \<in> set ps" and er: "unlink_error p (node_at f p) = None"
  shows "Print (removed_lock_file_msg p) \<in> set (trace (for_each ps (remove_lock_file out) f))"
  using pr mem er
proof (induction ps arbitrary: f)
  case Nil
  then show ?case by simp
next
  case (Cons x xs)
  show ?case
  proof (cases "x = p")
    case True
    have "Print (removed_lock_file_msg p) \<in> set (trace (remove_lock_file out p f))"
      using True Cons.prems by (simp add: remove_lock_file_eq [OF ok])
    then show ?thesis
      using True Cons.prems(1) by (simp add: first_loop_Cons [OF ok] del: for_each.simps)
  next
    case False
    then have "node_at (fs_after (remove_lock_file out x f)) p = node_at f p"
      by (simp add: remove_lock_file_fs [OF ok])
    then have "Print (removed_lock_file_msg p)
                 \<in> set (trace (for_each xs (remove_lock_file out)
                                 (fs_after (remove_lock_file out x f))))"
      using Cons False by simp
    then show ?thesis
      using Cons.prems(1) by (simp add: first_loop_Cons [OF ok] del: for_each.simps)
  qed
qed

lemma could_not_remove_logged_second_loop:
  assumes ok: "blocked out = None" and pr: "\<forall>p \<in> set ps. can_print out p"
    and mem: "p \<in> set ps" and ex: "exists_in g p"
    and er: "unlink_error p (node_at g p) = Some e"
  shows "Print (could_not_remove_msg p e)
           \<in> set (trace (for_each ps (remove_specific_lock out) g))"
  using pr mem ex er
proof (induction ps arbitrary: g)
  case Nil
  then show ?case by simp
next
  case (Cons x xs)
  have x: "can_print out x" using Cons.prems(1) by simp
  show ?case
  proof (cases "x = p")
    case True
    have "Print (could_not_remove_msg p e) \<in> set (trace (remove_specific_lock out p g))"
      using True Cons.prems x by (simp add: remove_specific_lock_eq [OF ok])
    then show ?thesis
      using True x by (simp add: second_loop_Cons [OF ok] del: for_each.simps)
  next
    case False
    then have "node_at (fs_after (remove_specific_lock out x g)) p = node_at g p"
      by (simp add: remove_specific_lock_fs [OF ok x])
    then have "Print (could_not_remove_msg p e)
                 \<in> set (trace (for_each xs (remove_specific_lock out)
                                 (fs_after (remove_specific_lock out x g))))"
      using Cons False by (simp add: exists_in_def)
    then show ?thesis
      by (simp add: second_loop_Cons [OF ok x] del: for_each.simps)
  qed
qed

lemma removed_logged_second_loop:
  assumes ok: "blocked out = None" and pr: "\<forall>p \<in> set ps. can_print out p"
    and mem: "p \<in> set ps" and er: "unlink_error p (node_at g p) = None"
  shows "Print (removed_msg p) \<in> set (trace (for_each ps (remove_specific_lock out) g))"
  using pr mem er
proof (induction ps arbitrary: g)
  case Nil
  then show ?case by simp
next
  case (Cons x xs)
  have x: "can_print out x" using Cons.prems(1) by simp
  show ?case
  proof (cases "x = p")
    case True
    have "Print (removed_msg p) \<in> set (trace (remove_specific_lock out p g))"
      using True Cons.prems x exists_unless_error [of p g]
      by (simp add: remove_specific_lock_eq [OF ok])
    then show ?thesis
      using True x by (simp add: second_loop_Cons [OF ok] del: for_each.simps)
  next
    case False
    then have "node_at (fs_after (remove_specific_lock out x g)) p = node_at g p"
      by (simp add: remove_specific_lock_fs [OF ok x])
    then have "Print (removed_msg p)
                 \<in> set (trace (for_each xs (remove_specific_lock out)
                                 (fs_after (remove_specific_lock out x g))))"
      using Cons False by simp
    then show ?thesis
      by (simp add: second_loop_Cons [OF ok x] del: for_each.simps)
  qed
qed

section \<open>The shape of the paths\<close>





lemma lock_file_listed:
  assumes "p \<in> set (lock_files_of f)"
  shows "\<not> too_deep f" and "below git_dir p" and "fnmatch ''*.lock'' (basename p)"
    and "\<exists>n. (p, n) \<in> set (nodes f) \<and> listed n"
proof -
  show nd: "\<not> too_deep f"
    using assms lock_files_of_deep [of f] by auto
  show "below git_dir p" and "fnmatch ''*.lock'' (basename p)"
    and "\<exists>n. (p, n) \<in> set (nodes f) \<and> listed n"
    using assms by (auto simp: lock_files_of_eq [OF nd])
qed


lemma lock_file_exists: "p \<in> set (lock_files_of f) \<Longrightarrow> node_at f p \<noteq> None"
  using lock_file_listed(4) [of p f]
  by (auto simp: node_at_def map_of_eq_None_iff intro: rev_image_eqI)

lemma specific_lock_matches:
  "p \<in> set specific_locks \<Longrightarrow> below git_dir p \<and> fnmatch ''*.lock'' (basename p)"
  by (auto simp: specific_locks_def below_def git_dir_def basename_def)


lemma specific_lock_found:
  assumes "p \<in> set specific_locks" and "node_at f p = Some n" and "listed n"
    and "\<not> too_deep f"
  shows "p \<in> set (lock_files_of f)"
proof -
  have "(p, n) \<in> set (nodes f)"
    using assms(2) by (simp add: node_at_def map_of_SomeD)
  then have "p \<in> set (map fst (filter (\<lambda>e. listed (snd e)) (nodes f)))"
    using assms(3) by (auto intro: rev_image_eqI)
  then show ?thesis
    using specific_lock_matches [OF assms(1)] by (simp add: lock_files_of_eq [OF assms(4)])
qed

section \<open>Where a command is run\<close>














section \<open>How a run ends\<close>



section \<open>The events of the cleanup within a run\<close>

lemma trace_cleanup_in_run:
  "set (trace (lock_cleanup out f)) \<subseteq> set (trace (force_git_resolution out sh f))"
  by (simp add: trace_force_git_resolution)

lemma first_loop_in_run:
  assumes "\<not> cut_short out f"
    and "ev \<in> set (trace (for_each (lock_files_of f) (remove_lock_file out) f))"
  shows "ev \<in> set (trace (force_git_resolution out sh f))"
  using assms(2) trace_cleanup_in_run [of out f sh]
  by (auto simp: lock_cleanup_eq [OF assms(1)])

lemma second_loop_in_run:
  assumes "\<not> cut_short out f"
    and "ev \<in> set (trace (for_each specific_locks (remove_specific_lock out)
                            (fs_after (for_each (lock_files_of f) (remove_lock_file out) f))))"
  shows "ev \<in> set (trace (force_git_resolution out sh f))"
  using assms(2) trace_cleanup_in_run [of out f sh]
  by (auto simp: lock_cleanup_eq [OF assms(1)])

lemma Unlink_notin_command_events: "Unlink p \<notin> set (command_events out c pr)"
  by (auto simp: command_events_def report_events_def encode_error_events_def
      split: proc.splits)

lemma Unlink_notin_third_loop:
  assumes ok: "blocked out = None"
  shows "set cs \<subseteq> set commands \<Longrightarrow>
    Unlink p \<notin> set (trace (for_each cs (run_command out sh) g))"
proof (induction cs arbitrary: g)
  case Nil
  show ?case by (simp add: act_return_def)
next
  case (Cons c cs)
  then show ?case
    by (simp add: third_loop_Cons [OF ok] Unlink_notin_command_events del: for_each.simps)
qed

lemma Unlink_notin_command_runner:
  assumes ok: "blocked out = None"
  shows "Unlink p \<notin> set (trace (command_runner out sh g))"
  by (simp add: command_runner_eq [OF ok] Unlink_notin_third_loop [OF ok] closing_lines_def)

lemma Unlink_in_run:
  "Unlink p \<in> set (trace (force_git_resolution out sh f)) \<longleftrightarrow>
   Unlink p \<in> set (trace (lock_cleanup out f))"
proof (cases "cut_short out f")
  case True
  then show ?thesis by (simp add: force_git_resolution_cut_short)
next
  case False
  then show ?thesis
    using Unlink_notin_command_runner [OF not_cut_short(1) [OF False]]
    by (simp add: trace_force_git_resolution)
qed

lemma Unlink_in_second_loop_exists:
  assumes ok: "blocked out = None" and pr: "\<forall>p \<in> set ps. can_print out p"
    and un: "Unlink p \<in> set (trace (for_each ps (remove_specific_lock out) g))"
  shows "exists_in g p"
  using pr un
proof (induction ps arbitrary: g)
  case Nil
  then show ?case by (simp add: act_return_def)
next
  case (Cons x xs)
  have x: "can_print out x" using Cons.prems(1) by simp
  from Cons.prems consider "Unlink p \<in> set (trace (remove_specific_lock out x g))"
    | "Unlink p \<in> set (trace (for_each xs (remove_specific_lock out)
                                  (fs_after (remove_specific_lock out x g))))"
    by (auto simp: second_loop_Cons [OF ok x] simp del: for_each.simps)
  then show ?case
  proof cases
    case 1
    then show ?thesis
      by (simp add: remove_specific_lock_eq [OF ok x] split: option.splits if_splits)
  next
    case 2
    then have "exists_in (fs_after (remove_specific_lock out x g)) p"
      using Cons.IH Cons.prems(1) by simp
    then show ?thesis
      by (auto simp: exists_in_def remove_specific_lock_fs [OF ok x]
          split: option.splits if_splits)
  qed
qed

lemma specific_printable: "\<forall>p \<in> set specific_locks. can_print out p"
  by (simp add: specific_locks_printable)

lemma found_lock_file:
  assumes nc: "\<not> cut_short out f" and mem: "p \<in> set (lock_files_of f)"
  shows "unlink_error p (node_at f p) = None \<Longrightarrow>
           Print (removed_lock_file_msg p) \<in> set (trace (force_git_resolution out sh f))"
    and "unlink_error p (node_at f p) = Some e \<Longrightarrow>
           Print (could_not_remove_msg p e) \<in> set (trace (force_git_resolution out sh f))"
  using removed_logged_first_loop [OF not_cut_short(1,3) [OF nc] mem, of f]
    could_not_remove_logged_first_loop [OF not_cut_short(1,3) [OF nc] mem, of f e]
    first_loop_in_run [OF nc, of _ sh]
  by blast+

lemma fixed_lock_file:
  assumes nc: "\<not> cut_short out f" and sp: "p \<in> set specific_locks"
    and nf: "p \<notin> set (lock_files_of f)"
  shows "unlink_error p (node_at f p) = None \<Longrightarrow>
           Print (removed_msg p) \<in> set (trace (force_git_resolution out sh f))"
    and "exists_in f p \<Longrightarrow> unlink_error p (node_at f p) = Some e \<Longrightarrow>
           Print (could_not_remove_msg p e) \<in> set (trace (force_git_resolution out sh f))"
    and "\<not> exists_in f p \<Longrightarrow> Unlink p \<notin> set (trace (force_git_resolution out sh f))"
proof -
  note ok = not_cut_short(1) [OF nc]
  let ?g = "fs_after (for_each (lock_files_of f) (remove_lock_file out) f)"
  have same: "node_at ?g p = node_at f p"
    using nf by (rule first_loop_frame [OF ok])
  then have ex: "exists_in ?g p = exists_in f p"
    by (simp add: exists_in_def)
  show "Print (removed_msg p) \<in> set (trace (force_git_resolution out sh f))"
    if "unlink_error p (node_at f p) = None"
    using removed_logged_second_loop [OF ok specific_printable sp, of ?g] that same
      second_loop_in_run [OF nc, of _ sh]
    by simp
  show "Print (could_not_remove_msg p e) \<in> set (trace (force_git_resolution out sh f))"
    if "exists_in f p" and "unlink_error p (node_at f p) = Some e"
    using could_not_remove_logged_second_loop [OF ok specific_printable sp, of ?g e] that
      same ex second_loop_in_run [OF nc, of _ sh]
    by simp
  show "Unlink p \<notin> set (trace (force_git_resolution out sh f))" if "\<not> exists_in f p"
  proof
    assume "Unlink p \<in> set (trace (force_git_resolution out sh f))"
    then have "Unlink p \<in> set (trace (lock_cleanup out f))"
      by (simp add: Unlink_in_run)
    then have "Unlink p \<in> set (trace (for_each specific_locks (remove_specific_lock out) ?g))"
      using Unlink_in_first_loop [OF ok, of p "lock_files_of f" f] nf
      by (auto simp: lock_cleanup_eq [OF nc])
    then have "exists_in ?g p"
      by (rule Unlink_in_second_loop_exists [OF ok specific_printable])
    then show False using that ex by simp
  qed
qed

section \<open>Failed deletions are reported\<close>











section \<open>The unlink attempts of a run\<close>









section \<open>A cleanup in which every deletion succeeds\<close>

lemma first_loop_all_removed:
  assumes ok: "blocked out = None"
  shows "\<forall>p \<in> set ps. can_print out p \<Longrightarrow> distinct ps \<Longrightarrow>
    \<forall>p \<in> set ps. unlink_error p (node_at f p) = None \<Longrightarrow>
    trace (for_each ps (remove_lock_file out) f) =
      concat (map (\<lambda>p. [Unlink p, Print (removed_lock_file_msg p)]) ps)"
proof (induction ps arbitrary: f)
  case Nil
  show ?case by (simp add: act_return_def)
next
  case (Cons p ps)
  have p: "can_print out p" and e: "unlink_error p (node_at f p) = None"
    using Cons.prems by simp_all
  have tr: "trace (remove_lock_file out p f) = [Unlink p, Print (removed_lock_file_msg p)]"
    using p e by (simp add: remove_lock_file_eq [OF ok])
  have "\<forall>q \<in> set ps. unlink_error q (node_at (fs_after (remove_lock_file out p f)) q) = None"
    using Cons.prems by (auto simp: remove_lock_file_fs [OF ok])
  then have "trace (for_each ps (remove_lock_file out) (fs_after (remove_lock_file out p f))) =
               concat (map (\<lambda>p. [Unlink p, Print (removed_lock_file_msg p)]) ps)"
    using Cons.IH Cons.prems by simp
  then show ?case
    using p tr by (simp add: first_loop_Cons [OF ok] del: for_each.simps)
qed

lemma second_loop_all_removed:
  assumes ok: "blocked out = None"
  shows "\<forall>p \<in> set ps. can_print out p \<Longrightarrow> distinct ps \<Longrightarrow>
    \<forall>p \<in> set ps. exists_in g p \<longrightarrow> unlink_error p (node_at g p) = None \<Longrightarrow>
    trace (for_each ps (remove_specific_lock out) g) =
      concat (map (\<lambda>p. [Unlink p, Print (removed_msg p)]) (filter (exists_in g) ps))"
proof (induction ps arbitrary: g)
  case Nil
  show ?case by (simp add: act_return_def)
next
  case (Cons p ps)
  have p: "can_print out p" using Cons.prems by simp
  have tr: "trace (remove_specific_lock out p g) =
              (if exists_in g p then [Unlink p, Print (removed_msg p)] else [])"
    using Cons.prems(3) by (simp add: remove_specific_lock_eq [OF ok p])
  have same: "node_at (fs_after (remove_specific_lock out p g)) q = node_at g q"
    if "q \<in> set ps" for q
    using that Cons.prems(2) by (auto simp: remove_specific_lock_fs [OF ok p])
  then have ex: "exists_in (fs_after (remove_specific_lock out p g)) q = exists_in g q"
    if "q \<in> set ps" for q
    using that by (simp add: exists_in_def)
  have f: "filter (exists_in (fs_after (remove_specific_lock out p g))) ps =
             filter (exists_in g) ps"
    by (rule filter_cong [OF refl]) (rule ex)
  have "\<forall>q \<in> set ps. exists_in (fs_after (remove_specific_lock out p g)) q \<longrightarrow>
          unlink_error q (node_at (fs_after (remove_specific_lock out p g)) q) = None"
    using Cons.prems(3) same ex by simp
  then have "trace (for_each ps (remove_specific_lock out)
                      (fs_after (remove_specific_lock out p g))) =
               concat (map (\<lambda>p. [Unlink p, Print (removed_msg p)]) (filter (exists_in g) ps))"
    using Cons.IH [of "fs_after (remove_specific_lock out p g)"] Cons.prems f by simp
  then show ?case
    using tr by (simp add: second_loop_Cons [OF ok p] del: for_each.simps)
qed

lemma two_locks_cleanup:
  assumes nc: "\<not> cut_short out f"
    and a: "unlink_error ''.git/index.lock'' (node_at f ''.git/index.lock'') = None"
    and b: "unlink_error ''.git/refs/heads/main.lock''
              (node_at f ''.git/refs/heads/main.lock'') = None"
    and d: "distinct (lock_files_of f)"
    and s: "set (lock_files_of f) \<subseteq> {''.git/index.lock'', ''.git/refs/heads/main.lock''}"
    and h: "\<not> exists_in f ''.git/HEAD.lock''" and c: "\<not> exists_in f ''.git/config.lock''"
  shows "trace (lock_cleanup out f) =
           Print ''Force-resolving Git lock and conflicts...'' #
           concat (map (\<lambda>p. [Unlink p, Print (removed_lock_file_msg p)]) (lock_files_of f)) @
           concat (map (\<lambda>p. [Unlink p, Print (removed_msg p)])
                     (filter (\<lambda>p. p \<notin> set (lock_files_of f))
                        [''.git/index.lock'', ''.git/refs/heads/main.lock'']))"
proof -
  note ok = not_cut_short(1) [OF nc] and pr = not_cut_short(3) [OF nc]
  let ?g = "fs_after (for_each (lock_files_of f) (remove_lock_file out) f)"
  have del: "\<forall>p \<in> set (lock_files_of f). unlink_error p (node_at f p) = None"
    using a b s by auto
  have g: "node_at ?g p =
             (if p \<in> set (lock_files_of f) \<and> unlink_error p (node_at f p) = None then None
              else node_at f p)" for p
    by (rule first_loop_fs [OF ok pr])
  have ea: "exists_in f ''.git/index.lock''" "exists_in f ''.git/refs/heads/main.lock''"
    using a b by (simp_all add: exists_unless_error)
  have ex: "exists_in ?g ''.git/index.lock'' = (''.git/index.lock'' \<notin> set (lock_files_of f))"
    "exists_in ?g ''.git/refs/heads/main.lock'' =
       (''.git/refs/heads/main.lock'' \<notin> set (lock_files_of f))"
    "\<not> exists_in ?g ''.git/HEAD.lock''" "\<not> exists_in ?g ''.git/config.lock''"
    using a b ea h c s by (auto simp: exists_in_def g)
  have "\<forall>p \<in> set specific_locks. exists_in ?g p \<longrightarrow> unlink_error p (node_at ?g p) = None"
    using a b ex by (auto simp: specific_locks_def g)
  moreover have "distinct specific_locks"
    by (simp add: specific_locks_def)
  moreover have "filter (exists_in ?g) specific_locks =
                   filter (\<lambda>p. p \<notin> set (lock_files_of f))
                     [''.git/index.lock'', ''.git/refs/heads/main.lock'']"
    using ex by (simp add: specific_locks_def)
  ultimately have "trace (for_each specific_locks (remove_specific_lock out) ?g) =
      concat (map (\<lambda>p. [Unlink p, Print (removed_msg p)])
                (filter (\<lambda>p. p \<notin> set (lock_files_of f))
                   [''.git/index.lock'', ''.git/refs/heads/main.lock'']))"
    using second_loop_all_removed [OF ok specific_printable, of ?g] by simp
  then show ?thesis
    using first_loop_all_removed [OF ok pr d del]
    by (simp add: lock_cleanup_eq [OF nc])
qed

lemma cleanup_removed_line:
  assumes nc: "\<not> cut_short out f" and sp: "p \<in> set specific_locks"
    and a: "unlink_error p (node_at f p) = None"
  shows "Print (if p \<in> set (lock_files_of f) then removed_lock_file_msg p else removed_msg p)
           \<in> set (trace (lock_cleanup out f))"
proof -
  note ok = not_cut_short(1) [OF nc] and pr = not_cut_short(3) [OF nc]
  let ?g = "fs_after (for_each (lock_files_of f) (remove_lock_file out) f)"
  show ?thesis
  proof (cases "p \<in> set (lock_files_of f)")
    case True
    then show ?thesis
      using removed_logged_first_loop [OF ok pr True a]
      by (simp add: lock_cleanup_eq [OF nc])
  next
    case False
    then have "node_at ?g p = node_at f p"
      by (rule first_loop_frame [OF ok])
    then show ?thesis
      using removed_logged_second_loop [OF ok specific_printable sp, of ?g] a False
      by (simp add: lock_cleanup_eq [OF nc])
  qed
qed

section \<open>The claims\<close>










text \<open>
  C4, as the code has it. Take a run that is not cut short and one of the four fixed paths
  \<open>p\<close> that exists before the run. If the process can delete \<open>p\<close>, then \<open>p\<close> is absent when
  the lock cleanup is over, a line is printed for it (\<^verbatim>\<open>Removed lock file: \<close> with the path
  when the search found it, \<^verbatim>\<open>Removed: \<close> with the path otherwise), and \<open>p\<close> is still
  absent when the routine returns provided none of the five commands creates it again.
  If unlinking \<open>p\<close> raises an error, \<open>p\<close> is after the cleanup what it was before; the line
  \<^verbatim>\<open>Could not remove\<close> with the path and the error is printed when the search found \<open>p\<close>
  or \<^verbatim>\<open>os.path.exists\<close> is true for it, and otherwise the run does not even try to
  unlink it. The claim as stated fails for a path that the process may not delete.
\<close>

theorem C4_specific_locks_removed:
  assumes "p \<in> set specific_locks" and "node_at f p \<noteq> None" and "\<not> cut_short out f"
  shows "(unlink_error p (node_at f p) = None \<longrightarrow>
            node_at (fs_after (lock_cleanup out f)) p = None
            \<and> Print (if p \<in> set (lock_files_of f) then removed_lock_file_msg p
                      else removed_msg p)
                \<in> set (trace (force_git_resolution out sh f))
            \<and> ((\<forall>c \<in> set commands. \<forall>g. node_at g p = None \<longrightarrow>
                   node_at (snd (sh c g)) p = None) \<longrightarrow>
                 node_at (fs_after (force_git_resolution out sh f)) p = None))
       \<and> (unlink_error p (node_at f p) = Some e \<longrightarrow>
            node_at (fs_after (lock_cleanup out f)) p = node_at f p
            \<and> (p \<in> set (lock_files_of f) \<or> exists_in f p \<longrightarrow>
                 Print (could_not_remove_msg p e)
                   \<in> set (trace (force_git_resolution out sh f)))
            \<and> (p \<notin> set (lock_files_of f) \<and> \<not> exists_in f p \<longrightarrow>
                 Unlink p \<notin> set (trace (force_git_resolution out sh f))))"
proof (cases "p \<in> set (lock_files_of f)")
  case True
  then show ?thesis
    using found_lock_file(1) [OF assms(3) True, where sh = sh]
      found_lock_file(2) [OF assms(3) True, where sh = sh and e = e]
      force_git_resolution_keeps_absent [of p sh out f]
    by (auto simp: lock_cleanup_fs [OF assms(3)])
next
  case False
  then show ?thesis
    using fixed_lock_file(1) [OF assms(3,1) False, where sh = sh]
      fixed_lock_file(2) [OF assms(3,1) False, where sh = sh and e = e]
      fixed_lock_file(3) [OF assms(3,1) False, where sh = sh]
      force_git_resolution_keeps_absent [of p sh out f] assms(1)
    by (auto simp: lock_cleanup_fs [OF assms(3)])
qed

theorem C4_specific_locks_removed_witness:
  "''.git/index.lock'' \<in> set specific_locks
   \<and> \<not> cut_short utf8 example_repo
   \<and> node_at example_repo ''.git/index.lock'' = Some plain_file
   \<and> node_at (fs_after (lock_cleanup utf8 example_repo)) ''.git/index.lock'' = None
   \<and> Print ''Removed lock file: .git/index.lock''
        \<in> set (trace (force_git_resolution utf8 quiet_git example_repo))
   \<and> node_at (fs_after (force_git_resolution utf8 quiet_git example_repo)) ''.git/index.lock''
        = None
   \<and> ''.git/refs/heads/main.lock'' \<in> set specific_locks
   \<and> node_at example_repo ''.git/refs/heads/main.lock'' = Some locked_file
   \<and> Print (could_not_remove_msg ''.git/refs/heads/main.lock''
        (OSError (''[Errno 13] Permission denied: '' @ py_repr ''.git/refs/heads/main.lock'')))
        \<in> set (trace (force_git_resolution utf8 quiet_git example_repo))
   \<and> node_at (fs_after (lock_cleanup utf8 example_repo)) ''.git/refs/heads/main.lock''
        = Some locked_file
   \<and> \<not> cut_short utf8 two_locks_repo
   \<and> node_at two_locks_repo ''.git/refs/heads/main.lock'' = Some linked_file
   \<and> ''.git/refs/heads/main.lock'' \<notin> set (lock_files_of two_locks_repo)
   \<and> Print ''Removed: .git/refs/heads/main.lock''
        \<in> set (trace (force_git_resolution utf8 quiet_git two_locks_repo))
   \<and> node_at (fs_after (force_git_resolution utf8 quiet_git two_locks_repo))
        ''.git/refs/heads/main.lock'' = None
   \<and> \<not> cut_short utf8 unreadable_repo
   \<and> node_at unreadable_repo ''.git/index.lock'' = Some hidden_file
   \<and> ''.git/index.lock'' \<notin> set (lock_files_of unreadable_repo)
   \<and> \<not> exists_in unreadable_repo ''.git/index.lock''
   \<and> Unlink ''.git/index.lock''
        \<notin> set (trace (force_git_resolution utf8 quiet_git unreadable_repo))
   \<and> node_at (fs_after (lock_cleanup utf8 unreadable_repo)) ''.git/index.lock''
        = Some hidden_file"
proof -
  have a: "''.git/index.lock'' \<in> set specific_locks"
    by code_simp
  have n: "\<not> cut_short utf8 example_repo" "\<not> cut_short utf8 two_locks_repo"
    "\<not> cut_short utf8 unreadable_repo"
    by code_simp+
  have b: "node_at example_repo ''.git/index.lock'' = Some plain_file"
    by code_simp
  have c: "\<forall>c \<in> set commands. \<forall>g. node_at g ''.git/index.lock'' = None \<longrightarrow>
             node_at (snd (quiet_git c g)) ''.git/index.lock'' = None"
    "\<forall>c \<in> set commands. \<forall>g. node_at g ''.git/refs/heads/main.lock'' = None \<longrightarrow>
             node_at (snd (quiet_git c g)) ''.git/refs/heads/main.lock'' = None"
    by (simp_all add: quiet_git_def)
  have d: "''.git/refs/heads/main.lock'' \<in> set specific_locks"
    by code_simp
  have e: "node_at example_repo ''.git/refs/heads/main.lock'' = Some locked_file"
    "node_at two_locks_repo ''.git/refs/heads/main.lock'' = Some linked_file"
    by code_simp+
  have l: "''.git/index.lock'' \<in> set (lock_files_of example_repo)"
    "''.git/refs/heads/main.lock'' \<in> set (lock_files_of example_repo)"
    "''.git/refs/heads/main.lock'' \<notin> set (lock_files_of two_locks_repo)"
    "''.git/index.lock'' \<notin> set (lock_files_of unreadable_repo)"
    "\<not> exists_in unreadable_repo ''.git/index.lock''"
    "node_at unreadable_repo ''.git/index.lock'' = Some hidden_file"
    by code_simp+
  have v: "unlink_error ''.git/index.lock'' (Some hidden_file) =
       Some (OSError (''[Errno 13] Permission denied: '' @ py_repr ''.git/index.lock''))"
    by (simp add: unlink_error_def hidden_file_def)
  have u: "unlink_error ''.git/index.lock'' (Some plain_file) = None"
    "unlink_error ''.git/refs/heads/main.lock'' (Some linked_file) = None"
    "unlink_error ''.git/refs/heads/main.lock'' (Some locked_file) =
       Some (OSError (''[Errno 13] Permission denied: ''
                      @ py_repr ''.git/refs/heads/main.lock''))"
    by (simp_all add: unlink_error_def plain_file_def locked_file_def linked_file_def)
  have m: "removed_lock_file_msg ''.git/index.lock'' = ''Removed lock file: .git/index.lock''"
    "removed_msg ''.git/refs/heads/main.lock'' = ''Removed: .git/refs/heads/main.lock''"
    by (simp_all add: removed_lock_file_msg_def removed_msg_def)
  show ?thesis
    using a n b c d e l u v m
      C4_specific_locks_removed [OF a _ n(1), of quiet_git]
      C4_specific_locks_removed [OF d _ n(1), of quiet_git]
      C4_specific_locks_removed [OF d _ n(2), of quiet_git]
      C4_specific_locks_removed [OF a _ n(3), of quiet_git]
    by auto
qed

theorem C4_counterexample:
  "''.git/index.lock'' \<in> set specific_locks
   \<and> node_at locked_repo ''.git/index.lock'' = Some locked_file
   \<and> trace (lock_cleanup utf8 locked_repo) =
       [Print ''Force-resolving Git lock and conflicts...'',
        Unlink ''.git/index.lock'',
        Raised (OSError (''[Errno 13] Permission denied: '' @ py_repr ''.git/index.lock'')),
        Print (''Could not remove .git/index.lock: [Errno 13] Permission denied: ''
               @ py_repr ''.git/index.lock''),
        Unlink ''.git/index.lock'',
        Raised (OSError (''[Errno 13] Permission denied: '' @ py_repr ''.git/index.lock'')),
        Print (''Could not remove .git/index.lock: [Errno 13] Permission denied: ''
               @ py_repr ''.git/index.lock'')]
   \<and> node_at (fs_after (force_git_resolution utf8 quiet_git locked_repo)) ''.git/index.lock''
       = Some locked_file"
  by code_simp






text \<open>
  C7, as the code has it. Take a run that is not cut short, in which \<^verbatim>\<open>.git/index.lock\<close>
  and \<^verbatim>\<open>.git/refs/heads/main.lock\<close> are both files that the process can delete. Then both
  are absent after the lock cleanup; a line is printed for each during the cleanup, which
  reads \<^verbatim>\<open>Removed lock file: \<close> with the path when the search found the file (first loop)
  and \<^verbatim>\<open>Removed: \<close> with the path when it did not (second loop); and the events of the
  whole run are those of the cleanup, among which no command is invoked, followed by those
  of the command runner, which invokes the five commands. When the search finds no other
  lock file and the other two fixed paths do not exist, the cleanup consists of the
  announcement and exactly these two deletions, each followed by its line. The claim as
  stated, for files that merely exist, fails when one of the two cannot be deleted.
\<close>

theorem C7_two_locks_scenario:
  assumes "node_at f ''.git/index.lock'' = Some (Node (File True) l True)"
    and "node_at f ''.git/refs/heads/main.lock'' = Some (Node (File True) l' True)"
    and "\<not> cut_short out f"
  shows "node_at (fs_after (lock_cleanup out f)) ''.git/index.lock'' = None
   \<and> node_at (fs_after (lock_cleanup out f)) ''.git/refs/heads/main.lock'' = None
   \<and> Print (if ''.git/index.lock'' \<in> set (lock_files_of f)
             then ''Removed lock file: .git/index.lock'' else ''Removed: .git/index.lock'')
        \<in> set (trace (lock_cleanup out f))
   \<and> Print (if ''.git/refs/heads/main.lock'' \<in> set (lock_files_of f)
             then ''Removed lock file: .git/refs/heads/main.lock''
             else ''Removed: .git/refs/heads/main.lock'')
        \<in> set (trace (lock_cleanup out f))
   \<and> trace (force_git_resolution out sh f) =
        trace (lock_cleanup out f)
        @ trace (command_runner out sh (fs_after (lock_cleanup out f)))
   \<and> invoked (trace (lock_cleanup out f)) = []
   \<and> invoked (trace (command_runner out sh (fs_after (lock_cleanup out f)))) = commands
   \<and> (distinct (lock_files_of f)
        \<and> set (lock_files_of f) \<subseteq> {''.git/index.lock'', ''.git/refs/heads/main.lock''}
        \<and> \<not> exists_in f ''.git/HEAD.lock'' \<and> \<not> exists_in f ''.git/config.lock'' \<longrightarrow>
      trace (lock_cleanup out f) =
        Print ''Force-resolving Git lock and conflicts...'' #
        concat (map (\<lambda>p. [Unlink p, Print (''Removed lock file: '' @ p)]) (lock_files_of f)) @
        concat (map (\<lambda>p. [Unlink p, Print (''Removed: '' @ p)])
                  (filter (\<lambda>p. p \<notin> set (lock_files_of f))
                     [''.git/index.lock'', ''.git/refs/heads/main.lock''])))"
proof -
  note nc = assms(3)
  have a: "unlink_error ''.git/index.lock'' (node_at f ''.git/index.lock'') = None"
    and b: "unlink_error ''.git/refs/heads/main.lock''
              (node_at f ''.git/refs/heads/main.lock'') = None"
    using assms(1,2) by (simp_all add: unlink_error_None_iff)
  have sp: "''.git/index.lock'' \<in> set specific_locks"
    "''.git/refs/heads/main.lock'' \<in> set specific_locks"
    by (simp_all add: specific_locks_def)
  have gone: "node_at (fs_after (lock_cleanup out f)) ''.git/index.lock'' = None"
    "node_at (fs_after (lock_cleanup out f)) ''.git/refs/heads/main.lock'' = None"
    using a b sp by (simp_all add: lock_cleanup_fs [OF nc])
  have lines: "Print (if ''.git/index.lock'' \<in> set (lock_files_of f)
             then ''Removed lock file: .git/index.lock'' else ''Removed: .git/index.lock'')
        \<in> set (trace (lock_cleanup out f))"
    "Print (if ''.git/refs/heads/main.lock'' \<in> set (lock_files_of f)
             then ''Removed lock file: .git/refs/heads/main.lock''
             else ''Removed: .git/refs/heads/main.lock'')
        \<in> set (trace (lock_cleanup out f))"
    using cleanup_removed_line [OF nc sp(1) a] cleanup_removed_line [OF nc sp(2) b]
    by (auto simp: removed_lock_file_msg_def removed_msg_def split: if_splits)
  have split: "trace (force_git_resolution out sh f) =
        trace (lock_cleanup out f)
        @ trace (command_runner out sh (fs_after (lock_cleanup out f)))"
    using nc by (simp add: trace_force_git_resolution)
  have inv: "invoked (trace (lock_cleanup out f)) = []"
    "invoked (trace (command_runner out sh (fs_after (lock_cleanup out f)))) = commands"
    by (simp_all add: invoked_lock_cleanup invoked_command_runner [OF not_cut_short(1) [OF nc]])
  have exact: "trace (lock_cleanup out f) =
        Print ''Force-resolving Git lock and conflicts...'' #
        concat (map (\<lambda>p. [Unlink p, Print (''Removed lock file: '' @ p)]) (lock_files_of f)) @
        concat (map (\<lambda>p. [Unlink p, Print (''Removed: '' @ p)])
                  (filter (\<lambda>p. p \<notin> set (lock_files_of f))
                     [''.git/index.lock'', ''.git/refs/heads/main.lock'']))"
    if "distinct (lock_files_of f)"
      and "set (lock_files_of f) \<subseteq> {''.git/index.lock'', ''.git/refs/heads/main.lock''}"
      and "\<not> exists_in f ''.git/HEAD.lock''" and "\<not> exists_in f ''.git/config.lock''"
    using two_locks_cleanup [OF nc a b that]
    unfolding removed_lock_file_msg_def removed_msg_def .
  show ?thesis
    using gone lines split inv exact by blast
qed

theorem C7_two_locks_scenario_witness:
  "node_at two_locks_repo ''.git/index.lock'' = Some (Node (File True) True True)
   \<and> node_at two_locks_repo ''.git/refs/heads/main.lock'' = Some (Node (File True) False True)
   \<and> \<not> cut_short utf8 two_locks_repo
   \<and> lock_files_of two_locks_repo = [''.git/index.lock'']
   \<and> \<not> exists_in two_locks_repo ''.git/HEAD.lock''
   \<and> \<not> exists_in two_locks_repo ''.git/config.lock''
   \<and> node_at (fs_after (lock_cleanup utf8 two_locks_repo)) ''.git/index.lock'' = None
   \<and> node_at (fs_after (lock_cleanup utf8 two_locks_repo)) ''.git/refs/heads/main.lock'' = None
   \<and> trace (lock_cleanup utf8 two_locks_repo) =
       [Print ''Force-resolving Git lock and conflicts...'',
        Unlink ''.git/index.lock'', Print ''Removed lock file: .git/index.lock'',
        Unlink ''.git/refs/heads/main.lock'', Print ''Removed: .git/refs/heads/main.lock'']
   \<and> trace (force_git_resolution utf8 quiet_git two_locks_repo) =
        trace (lock_cleanup utf8 two_locks_repo)
        @ trace (command_runner utf8 quiet_git (fs_after (lock_cleanup utf8 two_locks_repo)))
   \<and> invoked (trace (command_runner utf8 quiet_git
                        (fs_after (lock_cleanup utf8 two_locks_repo)))) = commands"
proof -
  have a: "node_at two_locks_repo ''.git/index.lock'' = Some (Node (File True) True True)"
    by code_simp
  have b: "node_at two_locks_repo ''.git/refs/heads/main.lock'' =
             Some (Node (File True) False True)"
    by code_simp
  have n: "\<not> cut_short utf8 two_locks_repo"
    by code_simp
  have l: "lock_files_of two_locks_repo = [''.git/index.lock'']"
    by code_simp
  have e: "\<not> exists_in two_locks_repo ''.git/HEAD.lock''"
    "\<not> exists_in two_locks_repo ''.git/config.lock''"
    by code_simp+
  show ?thesis
    using a b n l e C7_two_locks_scenario [OF a b n, of quiet_git]
    by simp
qed

theorem C7_counterexample:
  "node_at half_locked_repo ''.git/index.lock'' = Some plain_file
   \<and> node_at half_locked_repo ''.git/refs/heads/main.lock'' = Some locked_file
   \<and> trace (force_git_resolution utf8 quiet_git half_locked_repo) =
       [Print ''Force-resolving Git lock and conflicts...'',
        Unlink ''.git/index.lock'',
        Print ''Removed lock file: .git/index.lock'',
        Unlink ''.git/refs/heads/main.lock'',
        Raised (OSError (''[Errno 13] Permission denied: ''
                         @ py_repr ''.git/refs/heads/main.lock'')),
        Print (''Could not remove .git/refs/heads/main.lock: [Errno 13] Permission denied: ''
               @ py_repr ''.git/refs/heads/main.lock''),
        Unlink ''.git/refs/heads/main.lock'',
        Raised (OSError (''[Errno 13] Permission denied: ''
                         @ py_repr ''.git/refs/heads/main.lock'')),
        Print (''Could not remove .git/refs/heads/main.lock: [Errno 13] Permission denied: ''
               @ py_repr ''.git/refs/heads/main.lock''),
        Run [''git'', ''reset'', ''--hard'', ''HEAD''] 30 1, Returned 0 [] [],
        Print (ok_msg [''git'', ''reset'', ''--hard'', ''HEAD'']),
        Run [''git'', ''clean'', ''-fd''] 30 1, Returned 0 [] [],
        Print (ok_msg [''git'', ''clean'', ''-fd'']),
        Run [''git'', ''fetch'', ''--all''] 30 1, Returned 0 [] [],
        Print (ok_msg [''git'', ''fetch'', ''--all'']),
        Run [''git'', ''reset'', ''--hard'', ''origin/main''] 30 1, Returned 0 [] [],
        Print (ok_msg [''git'', ''reset'', ''--hard'', ''origin/main'']),
        Run [''git'', ''status''] 30 1, Returned 0 [] [],
        Print (ok_msg [''git'', ''status'']),
        Print [],
        Print (CHR 0x0A # ''Git resolution attempt complete.''),
        Print ''Try running: git status'']
   \<and> node_at (fs_after (force_git_resolution utf8 quiet_git half_locked_repo))
        ''.git/refs/heads/main.lock'' = Some locked_file"
  by code_simp

text \<open>
  C8: every child process that a run starts is one of the five commands and is run with
  a timeout of 30, and the call blocks for at most 30 units of time; and in a run that
  returns normally each of the five commands is run so.
\<close>

theorem C8_timeout_thirty:
  "(Run argv t d \<in> set (trace (force_git_resolution out sh f)) \<longrightarrow>
      argv \<in> set commands \<and> t = 30 \<and> d \<le> 30)
   \<and> (outcome (force_git_resolution out sh f) = Inr () \<and> cmd \<in> set commands \<longrightarrow>
        (\<exists>d \<le> 30. Run cmd 30 d \<in> set (trace (force_git_resolution out sh f))))"
proof -
  have "\<exists>d \<le> 30. Run cmd 30 d \<in> set (trace (force_git_resolution out sh f))"
    if o: "outcome (force_git_resolution out sh f) = Inr ()" and c: "cmd \<in> set commands"
  proof -
    have "invoked (trace (force_git_resolution out sh f)) = commands"
      using o by (simp add: force_git_resolution_outcome invoked_force_git_resolution)
    then obtain t d where "Run cmd t d \<in> set (trace (force_git_resolution out sh f))"
      using c invoked_mem [of cmd "trace (force_git_resolution out sh f)"] by auto
    then show ?thesis using Run_in_force_git_resolution(1) by blast
  qed
  then show ?thesis using Run_in_force_git_resolution(1) by blast
qed

theorem C8_timeout_thirty_witness:
  "Run [''git'', ''status''] 30 2
     \<in> set (trace (force_git_resolution utf8 example_shell example_repo))
   \<and> outcome (force_git_resolution utf8 example_shell example_repo) = Inr ()
   \<and> [''git'', ''status''] \<in> set commands
   \<and> (\<exists>d \<le> 30. Run [''git'', ''status''] 30 d
                   \<in> set (trace (force_git_resolution utf8 example_shell example_repo)))"
proof -
  have h1: "Run [''git'', ''status''] 30 2
              \<in> set (trace (force_git_resolution utf8 example_shell example_repo))"
    by code_simp
  have h2: "[''git'', ''status''] \<in> set commands"
    by code_simp
  have h3: "outcome (force_git_resolution utf8 example_shell example_repo) = Inr ()"
    by code_simp
  show ?thesis
    using h1 h2 h3
      C8_timeout_thirty [of "[''git'', ''status'']" 30 2 utf8 example_shell example_repo
        "[''git'', ''status'']"]
    by blast
qed







end
